theory Spec2Isabelle
  imports Complex_Main
begin

section \<open>Media analysis CLI: embedding of \<open>media-analysis-cli.py\<close>\<close>

text \<open>
  Conventions of the embedding.
  \<^item> A Python \<open>str\<close> is a \<open>string\<close>; one \<open>char\<close> stands for one code point below 256
    (the Latin-1 range), so the character tables below are Python's tables cut to that range.
  \<^item> A Python \<open>float\<close> is a \<open>real\<close>. The sentiment label only compares the polarity, and
    the literal \<open>0.1\<close> is one tenth. The credibility score computes: there a float is the
    number the double holds, and every operation rounds its exact result to the nearest
    double, ties to even (\<open>fl\<close> below).
  \<^item> What comes from outside the file (the HTTP fetch, the parsed page, the answers typed at
    the prompt, \<open>urljoin\<close>, \<open>urlparse\<close>, \<open>TextBlob\<close>) is a field of the record \<open>world\<close>.
  \<^item> Printing is left out; a function returns what the Python returns.
\<close>

subsection \<open>Characters\<close>

definition py_lower_char :: "char \<Rightarrow> char" where
  \<comment> \<open>\<open>str.lower\<close> on one code point below 256\<close>
  "py_lower_char c =
     (let n = (of_char c :: nat)
      in if (65 \<le> n \<and> n \<le> 90) \<or> (192 \<le> n \<and> n \<le> 222 \<and> n \<noteq> 215)
         then char_of (n + 32) else c)"

definition py_lower :: "string \<Rightarrow> string" where
  "py_lower s = map py_lower_char s"

definition is_word_char :: "char \<Rightarrow> bool" where
  \<comment> \<open>the class \<open>\w\<close> of \<open>re\<close> on a \<open>str\<close> pattern: alphanumeric or underscore\<close>
  "is_word_char c =
     (let n = (of_char c :: nat)
      in (48 \<le> n \<and> n \<le> 57) \<or> (65 \<le> n \<and> n \<le> 90) \<or> n = 95 \<or> (97 \<le> n \<and> n \<le> 122)
         \<or> n = 170 \<or> n = 178 \<or> n = 179 \<or> n = 181 \<or> n = 185 \<or> n = 186
         \<or> (188 \<le> n \<and> n \<le> 190) \<or> (192 \<le> n \<and> n \<le> 214)
         \<or> (216 \<le> n \<and> n \<le> 246) \<or> (248 \<le> n \<and> n \<le> 255))"

definition is_space_char :: "char \<Rightarrow> bool" where
  \<comment> \<open>the characters \<open>str.strip()\<close> removes\<close>
  "is_space_char c =
     (let n = (of_char c :: nat)
      in (9 \<le> n \<and> n \<le> 13) \<or> (28 \<le> n \<and> n \<le> 32) \<or> n = 133 \<or> n = 160)"

definition strip :: "string \<Rightarrow> string" where
  "strip s = rev (dropWhile is_space_char (rev (dropWhile is_space_char s)))"

subsection \<open>Number formatting\<close>

definition digit_char :: "nat \<Rightarrow> char" where
  "digit_char d = ''0123456789'' ! (d mod 10)"

function str_nat :: "nat \<Rightarrow> string" where
  "str_nat n = (if n < 10 then [digit_char n] else str_nat (n div 10) @ [digit_char (n mod 10)])"
  by pat_completeness auto
termination
  by (relation "measure id") auto

declare str_nat.simps [simp del]

definition round_half_even :: "real \<Rightarrow> int" where
  "round_half_even x =
     (let f = \<lfloor>x\<rfloor>; r = x - of_int f
      in if r < 1 / 2 then f else if 1 / 2 < r then f + 1
         else if even f then f else f + 1)"

definition format_2f :: "real \<Rightarrow> string" where
  \<comment> \<open>\<open>f"{x:.2f}"\<close>: two decimals, ties to even\<close>
  "format_2f x =
     (let n = nat (round_half_even (\<bar>x\<bar> * 100))
      in (if x < 0 then ''-'' else '''') @ str_nat (n div 100) @ ''.''
         @ [digit_char (n mod 100 div 10), digit_char (n mod 10)])"

subsection \<open>Double arithmetic\<close>

text \<open>
  Python computes on floats in IEEE 754 binary64 with round-to-nearest, ties-to-even. \<open>fl x\<close>
  is the number with a significand of 53 bits nearest to \<open>x\<close>: with \<open>2 ^ e \<le> \<bar>x\<bar> < 2 ^ (e + 1)\<close>
  it is the nearest multiple of \<open>2 ^ (e - 52)\<close>, the even multiple on a tie. The exponent is
  not bounded; with a subjectivity between 0 and 1 no operation of the credibility score
  leaves the range of the normal doubles.
\<close>

function bit_length :: "nat \<Rightarrow> nat" where
  \<comment> \<open>the number of binary digits of \<open>n\<close>\<close>
  "bit_length n = (if n = 0 then 0 else Suc (bit_length (n div 2)))"
  by pat_completeness auto
termination
  by (relation "measure id") auto

declare bit_length.simps [simp del]

definition pow2 :: "int \<Rightarrow> real" where
  \<comment> \<open>\<open>2 ^ e\<close> for an integer \<open>e\<close> of either sign\<close>
  "pow2 e = (if 0 \<le> e then 2 ^ nat e else 1 / 2 ^ nat (- e))"

definition exponent :: "real \<Rightarrow> int" where
  \<comment> \<open>the \<open>e\<close> with \<open>2 ^ e \<le> \<bar>x\<bar> < 2 ^ (e + 1)\<close>, for \<open>x\<close> other than 0\<close>
  "exponent x =
     (if 1 \<le> \<bar>x\<bar> then int (bit_length (nat \<lfloor>\<bar>x\<bar>\<rfloor>)) - 1
      else (let j = int (bit_length (nat \<lfloor>1 / \<bar>x\<bar>\<rfloor>)) - 1
            in if \<bar>x\<bar> * pow2 j = 1 then - j else - j - 1))"

definition fl :: "real \<Rightarrow> real" where
  \<comment> \<open>rounding to the nearest double\<close>
  "fl x = (if x = 0 then 0
           else let u = pow2 (exponent x - 52) in of_int (round_half_even (x / u)) * u)"

definition fadd :: "real \<Rightarrow> real \<Rightarrow> real" where
  \<comment> \<open>\<open>x + y\<close> on floats\<close>
  "fadd x y = fl (x + y)"

definition fsub :: "real \<Rightarrow> real \<Rightarrow> real" where
  \<comment> \<open>\<open>x - y\<close> on floats\<close>
  "fsub x y = fl (x - y)"

definition fmul :: "real \<Rightarrow> real \<Rightarrow> real" where
  \<comment> \<open>\<open>x * y\<close> on floats\<close>
  "fmul x y = fl (x * y)"

subsection \<open>Data\<close>

record Article =
  url :: string
  text' :: string
  title :: string
  authors :: "string list"
  external_links_count :: nat

record Blob =
  \<comment> \<open>what the analyses read of \<open>TextBlob(text)\<close>\<close>
  sentiment_polarity :: real
  sentiment_subjectivity :: real
  sentences :: "string list"

record Analyzer =
  article :: Article
  self_text :: string
  blob :: Blob

datatype py_error = ValueError

subsection \<open>Sentiment\<close>

definition analyze_sentiment :: "Analyzer \<Rightarrow> string \<times> real \<times> real" where
  "analyze_sentiment self =
     (let polarity = sentiment_polarity (blob self);
          subjectivity = sentiment_subjectivity (blob self);
          sentiment_label =
            (if polarity > 0.1 then ''Positive''
             else if polarity < - 0.1 then ''Negative''
             else ''Neutral'')
      in (sentiment_label, polarity, subjectivity))"

subsection \<open>Source credibility\<close>

definition credibility_score :: "Analyzer \<Rightarrow> real" where
  \<comment> \<open>the local \<open>credibility_score\<close> of \<open>analyze_source_credibility\<close> after the clamp; the
      integers 1, 100, 25 and \<open>link_bonus\<close> become floats without rounding\<close>
  "credibility_score self =
     (let (sentiment_label, polarity, subjectivity) = analyze_sentiment self;
          num_sentences = length (sentences (blob self));
          link_count = external_links_count (article self);
          score = fmul (fsub 1 subjectivity) 100;
          score = (if num_sentences < 8 then fsub score 25 else score);
          link_bonus = min (link_count * 3) 30;
          score = fadd score (real link_bonus)
      in max 0 (min 100 score))"

definition credibility_assessment :: "real \<Rightarrow> string" where
  "credibility_assessment score =
     (if score > 80 then ''Appears highly credible''
      else if score > 60 then ''Appears credible''
      else if score > 40 then ''Moderate credibility''
      else ''Low credibility (review with caution)'')"

definition analyze_source_credibility :: "Analyzer \<Rightarrow> string \<times> string" where
  "analyze_source_credibility self =
     (let score = credibility_score self;
          assessment = credibility_assessment score
      in (assessment, format_2f score @ ''/100''))"

text \<open>The clamp of the specification, written with comparisons.\<close>

definition clamp :: "real \<Rightarrow> real \<Rightarrow> real \<Rightarrow> real" where
  "clamp x lo hi = (if x < lo then lo else if hi < x then hi else x)"

subsection \<open>Topic\<close>

function py_count :: "string \<Rightarrow> string \<Rightarrow> nat" where
  \<comment> \<open>\<open>s.count(sub)\<close>: a left-to-right scan that jumps over each occurrence it counts\<close>
  "py_count s sub =
     (if sub = [] then length s + 1
      else if length s < length sub then 0
      else if take (length sub) s = sub then 1 + py_count (drop (length sub) s) sub
      else py_count (tl s) sub)"
  by pat_completeness auto
termination
  by (relation "measure (\<lambda>(s, sub). length s)") (auto simp: not_less neq_Nil_conv)

declare py_count.simps [simp del]

definition topics :: "(string \<times> string list) list" where
  "topics =
    [(''Technology'',
      [''ai'', ''software'', ''hardware'', ''apple'', ''google'', ''data'', ''cloud'',
       ''startup'', ''algorithm'', ''cybersecurity'', ''innovation'', ''robotics'', ''crypto'',
       ''samsung'', ''processor'', ''graphics'', ''performance'']),
     (''Politics'',
      [''government'', ''election'', ''senate'', ''law'', ''policy'', ''president'',
       ''congress'', ''political'', ''legislation'', ''democracy'', ''ballot'', ''vote'']),
     (''Sports'',
      [''game'', ''team'', ''player'', ''season'', ''score'', ''nba'', ''football'',
       ''olympics'', ''champion'', ''athlete'', ''stadium'', ''playoffs'', ''goal'', ''soccer'']),
     (''Business'',
      [''company'', ''market'', ''stock'', ''economy'', ''ceo'', ''finance'', ''investment'',
       ''revenue'', ''quarterly'', ''wall street'', ''ipo'', ''earnings'']),
     (''Health'',
      [''health'', ''sleep'', ''medical'', ''doctor'', ''hospital'', ''fda'', ''virus'',
       ''pandemic'', ''vaccine'', ''research'', ''disease'', ''wellness'', ''nutrition'']),
     (''Entertainment'',
      [''movie'', ''music'', ''singer'', ''box office'', ''celebrity'', ''film'',
       ''hollywood'', ''nollywood'', ''bollywood'', ''award'', ''series'', ''netflix'',
       ''actor'', ''actress'', ''director'', ''album'', ''concert'']),
     (''Education'',
      [''course'', ''student'', ''test'', ''exam'', ''school'', ''university'',
       ''scholarship'', ''hostel'', ''bootcamp'', ''camp''])]"

definition topic_score :: "string \<Rightarrow> string list \<Rightarrow> nat" where
  \<comment> \<open>the inner loop: \<open>scores[topic] += lower_text.count(keyword)\<close>, from 0\<close>
  "topic_score lower_text keywords =
     foldl (\<lambda>score keyword. score + py_count lower_text keyword) 0 keywords"

definition scores :: "string \<Rightarrow> (string \<times> nat) list" where
  \<comment> \<open>the dict \<open>scores\<close> after the loops, in insertion order\<close>
  "scores lower_text = map (\<lambda>(topic, keywords). (topic, topic_score lower_text keywords)) topics"

fun max_from :: "string \<times> nat \<Rightarrow> (string \<times> nat) list \<Rightarrow> string" where
  "max_from best [] = fst best"
| "max_from best (x # xs) = max_from (if snd best < snd x then x else best) xs"

definition py_max_key :: "(string \<times> nat) list \<Rightarrow> py_error + string" where
  \<comment> \<open>\<open>max(d, key=d.get)\<close>: the first key, in iteration order, whose value no other exceeds;
      \<open>ValueError\<close> on an empty dict\<close>
  "py_max_key d = (case d of [] \<Rightarrow> Inl ValueError | x # xs \<Rightarrow> Inr (max_from x xs))"

definition categorize_topic :: "Analyzer \<Rightarrow> py_error + string" where
  "categorize_topic self =
     (let lower_text = py_lower (self_text self);
          d = scores lower_text
      in if list_all (\<lambda>(topic, score). score = 0) d then Inr ''Uncategorized''
         else py_max_key d)"

text \<open>
  The count of the specification: every position at which the keyword occurs, overlapping
  occurrences included.
\<close>

definition occurrences :: "string \<Rightarrow> string \<Rightarrow> nat" where
  "occurrences s sub =
     length (filter (\<lambda>i. take (length sub) (drop i s) = sub)
               [0 ..< Suc (length s) - length sub])"

definition occurrence_positions :: "string \<Rightarrow> string \<Rightarrow> nat set" where
  "occurrence_positions s sub =
     {i. i + length sub \<le> length s \<and> take (length sub) (drop i s) = sub}"

definition spec_topic_score :: "string \<Rightarrow> string list \<Rightarrow> nat" where
  "spec_topic_score body keywords = sum_list (map (occurrences (py_lower body)) keywords)"

definition spec_scores :: "string \<Rightarrow> (string \<times> nat) list" where
  "spec_scores body = map (\<lambda>(topic, keywords). (topic, spec_topic_score body keywords)) topics"

definition spec_categorize :: "string \<Rightarrow> py_error + string" where
  "spec_categorize body =
     (let d = spec_scores body
      in if list_all (\<lambda>(topic, score). score = 0) d then Inr ''Uncategorized''
         else py_max_key d)"

subsection \<open>Bias\<close>

definition head_opt :: "string \<Rightarrow> char option" where
  "head_opt s = (case s of [] \<Rightarrow> None | c # _ \<Rightarrow> Some c)"

definition is_word_at :: "char option \<Rightarrow> bool" where
  \<comment> \<open>a word character stands there; \<open>None\<close> is either end of the text\<close>
  "is_word_at x = (case x of None \<Rightarrow> False | Some c \<Rightarrow> is_word_char c)"

definition word_boundary :: "char option \<Rightarrow> char option \<Rightarrow> bool" where
  \<comment> \<open>\<open>\b\<close> at a position, from the character before it and the character after it\<close>
  "word_boundary prev nxt = (is_word_at prev \<noteq> is_word_at nxt)"

definition match_here :: "string \<Rightarrow> char option \<Rightarrow> string \<Rightarrow> bool" where
  \<comment> \<open>\<open>\b\<close>, the escaped word read literally without regard to case, \<open>\b\<close>: matched at the
      position whose preceding character is \<open>prev\<close> and whose remaining text is \<open>s\<close>\<close>
  "match_here word prev s =
     (let n = length word; m = take n s
      in n \<le> length s \<and> py_lower m = py_lower word
         \<and> word_boundary prev (head_opt s)
         \<and> word_boundary (if m = [] then prev else Some (last m)) (head_opt (drop n s)))"

fun search_from :: "string \<Rightarrow> char option \<Rightarrow> string \<Rightarrow> bool" where
  "search_from word prev [] = match_here word prev []"
| "search_from word prev (c # cs) =
     (match_here word prev (c # cs) \<or> search_from word (Some c) cs)"

definition re_search_word :: "string \<Rightarrow> string \<Rightarrow> bool" where
  \<comment> \<open>\<open>re.search(r'\b' + re.escape(word) + r'\b', text, re.IGNORECASE)\<close> is not \<open>None\<close>\<close>
  "re_search_word word text = search_from word None text"

definition biased_words :: "string list" where
  "biased_words =
    [''alarming'', ''amazing'', ''appalling'', ''awful'', ''bad'', ''beautiful'', ''best'',
     ''blatant'', ''breakthrough'', ''catastrophe'', ''certainly'', ''chaotic'', ''clearly'',
     ''collusion'', ''conspiracy'', ''corrupt'', ''covert'', ''crisis'', ''danger'',
     ''deadly'', ''decent'', ''definitely'', ''disaster'', ''disgraceful'', ''disgusting'',
     ''drastic'', ''duty'', ''effective'', ''excellent'', ''exceptional'', ''extreme'',
     ''failure'', ''fair'', ''fantastic'', ''fear-mongering'', ''finally'', ''flawless'',
     ''foolish'', ''freedom'', ''frenzy'', ''frightening'', ''good'', ''great'', ''hate'',
     ''healthy'', ''heroic'', ''historic'', ''honest'', ''horrible'', ''huge'',
     ''immediately'', ''important'', ''impossible'', ''incompetent'', ''incredible'',
     ''inevitable'', ''inflammatory'', ''injustice'', ''inspirational'', ''irresponsible'',
     ''justice'', ''landmark'', ''likely'', ''looming'', ''massive'', ''masterpiece'',
     ''meaningful'', ''miracle'', ''misleading'', ''monumental'', ''must'', ''myth'',
     ''obviously'', ''of course'', ''outrageous'', ''panic'', ''patriotic'', ''perfect'',
     ''pivotal'', ''poor'', ''propaganda'', ''radical'', ''reasonable'', ''revolutionary'',
     ''rigged'', ''scandal'', ''scare'', ''secret'', ''shameful'', ''shocking'',
     ''significant'', ''smart'', ''so-called'', ''special'', ''stupid'', ''successful'',
     ''suddenly'', ''superb'', ''terrible'', ''terrifying'', ''threat'', ''timely'', ''tiny'',
     ''tragic'', ''tremendous'', ''true'', ''trust'', ''truth'', ''unacceptable'',
     ''unbelievable'', ''undoubtedly'', ''unfair'', ''unfortunate'', ''unprecedented'',
     ''urgent'', ''victory'', ''violent'', ''vital'', ''wonderful'', ''worst'', ''wrong'']"


definition found_words :: "Analyzer \<Rightarrow> string list" where
  \<comment> \<open>the list \<open>found_words\<close> after the loop\<close>
  "found_words self = filter (\<lambda>word. re_search_word word (self_text self)) biased_words"

definition bias_assessment :: "nat \<Rightarrow> string" where
  "bias_assessment score =
     (if score > 15 then ''High potential for bias''
      else if score > 7 then ''Moderate potential for bias''
      else if score > 0 then ''Low potential for bias''
      else ''Appears to be objective'')"

definition py_list_set :: "'a list \<Rightarrow> 'a list \<Rightarrow> bool" where
  \<comment> \<open>\<open>ys\<close> is a possible value of \<open>list(set(xs))\<close>: the elements once each, in any order\<close>
  "py_list_set xs ys = (distinct ys \<and> set ys = set xs)"

definition detect_bias :: "Analyzer \<Rightarrow> string \<times> nat \<times> string list \<Rightarrow> bool" where
  \<comment> \<open>\<open>detect_bias self r\<close>: \<open>r\<close> is a triple the method can return\<close>
  "detect_bias self r =
     (let found = found_words self;
          score = length found;
          assessment = bias_assessment score
      in case r of (a, n, ws) \<Rightarrow> a = assessment \<and> n = score \<and> py_list_set found ws)"

text \<open>
  A whole-word match in the words of the specification: the entry, up to case, stands in the
  text with no word character directly before it and none directly after it.
\<close>

definition whole_word_match :: "string \<Rightarrow> string \<Rightarrow> bool" where
  "whole_word_match word text =
     (\<exists>pre mid post. text = pre @ mid @ post \<and> py_lower mid = py_lower word
        \<and> (pre = [] \<or> \<not> is_word_char (last pre))
        \<and> (post = [] \<or> \<not> is_word_char (hd post)))"

text \<open>
  The same search on a text prepared once: every character lower-cased and paired with its
  word-character flag. It is proved equal to \<open>re_search_word\<close> below for entries that start
  and end with a word character (\<open>wordlike\<close>), as every entry of the lexicon does, and
  serves to evaluate the search on concrete texts.
\<close>

definition wordlike :: "string \<Rightarrow> bool" where
  "wordlike w = (w \<noteq> [] \<and> is_word_char (hd w) \<and> is_word_char (last w))"

definition annotate :: "string \<Rightarrow> (char \<times> bool) list" where
  "annotate s = map (\<lambda>c. (py_lower_char c, is_word_char c)) s"

fun prefix_then_break :: "string \<Rightarrow> (char \<times> bool) list \<Rightarrow> bool" where
  "prefix_then_break [] [] = True"
| "prefix_then_break [] ((c, b) # t) = (\<not> b)"
| "prefix_then_break (x # xs) [] = False"
| "prefix_then_break (x # xs) ((c, b) # t) = (if x = c then prefix_then_break xs t else False)"

fun scan :: "string \<Rightarrow> bool \<Rightarrow> (char \<times> bool) list \<Rightarrow> bool" where
  "scan w pw [] = False"
| "scan w pw ((c, b) # t) =
     (if pw then scan w b t
      else if prefix_then_break w ((c, b) # t) then True else scan w b t)"

subsection \<open>The world outside the file\<close>

record ParseResult =
  scheme :: string
  netloc :: string

record Paragraph =
  \<comment> \<open>a \<open><p>\<close> element: \<open>p.get_text()\<close> and the \<open>href\<close> of each \<open>a\<close> of \<open>p.find_all('a', href=True)\<close>\<close>
  get_text :: string
  hrefs :: "string list"

record Soup =
  \<comment> \<open>the parsed page: \<open>soup.title.string\<close> (\<open>None\<close> when \<open>soup.title\<close> or its string is
      missing), and the result of \<open>find_all('p')\<close> on \<open>soup.find('article')\<close>, on
      \<open>soup.find('main')\<close> (\<open>None\<close> when there is no such element) and on \<open>soup\<close>\<close>
  title_string :: "string option"
  article_paragraphs :: "Paragraph list option"
  main_paragraphs :: "Paragraph list option"
  soup_paragraphs :: "Paragraph list"

datatype response = RequestException | Page Soup

record world =
  \<comment> \<open>\<open>requests_get u k\<close>: what the \<open>k\<close>-th attempt to fetch \<open>u\<close> gives (\<open>requests.get\<close>,
      \<open>raise_for_status\<close> and the parse); \<open>input k\<close>: the answer typed after the \<open>k\<close>-th failure\<close>
  requests_get :: "string \<Rightarrow> nat \<Rightarrow> response"
  input :: "nat \<Rightarrow> string"
  urljoin :: "string \<Rightarrow> string \<Rightarrow> string"
  urlparse :: "string \<Rightarrow> ParseResult"
  TextBlob :: "string \<Rightarrow> Blob"

subsection \<open>Article\<close>

definition is_valid_url :: "world \<Rightarrow> string \<Rightarrow> bool" where
  "is_valid_url w u =
     (let parsed = urlparse w u
      in scheme parsed \<in> {''http'', ''https''} \<and> netloc parsed \<noteq> [])"

fun join :: "string \<Rightarrow> string list \<Rightarrow> string" where
  \<comment> \<open>\<open>sep.join(xs)\<close>\<close>
  "join sep [] = []"
| "join sep [x] = x"
| "join sep (x # y # ys) = x @ sep @ join sep (y # ys)"

definition external_links :: "world \<Rightarrow> string \<Rightarrow> Paragraph list \<Rightarrow> string set" where
  \<comment> \<open>the set \<open>links\<close> after the two nested loops\<close>
  "external_links w u paragraphs =
     (let base_url_netloc = netloc (urlparse w u)
      in fold (\<lambda>p links.
           fold (\<lambda>href links.
             (let absolute_url = urljoin w u href
              in if scheme (urlparse w absolute_url) \<in> {''http'', ''https''}
                    \<and> netloc (urlparse w absolute_url) \<noteq> base_url_netloc
                 then insert absolute_url links else links))
             (hrefs p) links)
           paragraphs {})"

definition page_title :: "Soup \<Rightarrow> string" where
  \<comment> \<open>the title set when \<open>soup.title and soup.title.string\<close> holds, or the sentinel\<close>
  "page_title soup =
     (case title_string soup of
        Some s \<Rightarrow> if s \<noteq> [] then strip s else ''No title found''
      | None \<Rightarrow> ''No title found'')"

definition select_paragraphs :: "Soup \<Rightarrow> Paragraph list" where
  \<comment> \<open>\<open>(soup.find('article') or soup.find('main') or soup).find_all('p')\<close>\<close>
  "select_paragraphs soup =
     (case article_paragraphs soup of
        Some ps \<Rightarrow> ps
      | None \<Rightarrow> (case main_paragraphs soup of Some ps \<Rightarrow> ps | None \<Rightarrow> soup_paragraphs soup))"

definition parse_page :: "world \<Rightarrow> Article \<Rightarrow> Soup \<Rightarrow> Article" where
  \<comment> \<open>the body of the \<open>try\<close> block of \<open>fetch_content\<close> once the response has arrived\<close>
  "parse_page w self soup =
     (let new_title = page_title soup;
          paragraphs = select_paragraphs soup;
          joined = join [CHR 0x0A] (map get_text paragraphs);
          links = external_links w (url self) paragraphs;
          new_text = (if joined = [] then ''Content could not be extracted.'' else joined)
      in self\<lparr>title := new_title, text' := new_text, external_links_count := card links\<rparr>)"

partial_function (option) fetch_content :: "world \<Rightarrow> nat \<Rightarrow> Article \<Rightarrow> Article option" where
  \<comment> \<open>\<open>fetch_content w k self\<close>: the method entered for the \<open>k\<close>-th attempt; it returns the
      article as the method leaves it. \<open>None\<close>: no attempt ends the fetch, because every one
      fails and every retry is accepted (the Python recurses until the interpreter stops it).\<close>
  "fetch_content w k self =
     (case requests_get w (url self) k of
        Page soup \<Rightarrow> Some (parse_page w self soup)
      | RequestException \<Rightarrow>
          (let retry = py_lower (input w k)
           in if retry = ''y'' then fetch_content w (Suc k) self
              else Some (self\<lparr>text' := [], title := ''Failed to Fetch''\<rparr>)))"


definition Article_init :: "world \<Rightarrow> string \<Rightarrow> Article option" where
  "Article_init w u =
     fetch_content w 0
       \<lparr>url = u, text' = [], title = [], authors = [], external_links_count = 0\<rparr>"

subsection \<open>Analyzer construction and the command line\<close>

definition Analyzer_init :: "world \<Rightarrow> Article \<Rightarrow> py_error + Analyzer" where
  \<comment> \<open>the argument is an \<open>Article\<close> by its type, so \<open>isinstance\<close> holds\<close>
  "Analyzer_init w a =
     (if text' a = [] then Inl ValueError
      else Inr \<lparr>article = a, self_text = text' a, blob = TextBlob w (text' a)\<rparr>)"

datatype outcome =
    Invalid_url
  | Cannot_proceed
  | Unexpected_error py_error
  | Report Article Analyzer

definition run :: "world \<Rightarrow> string \<Rightarrow> outcome option" where
  \<comment> \<open>\<open>CLI.run\<close>. \<open>Report a an\<close>: steps 3 and 4 are reached, the four analyses are called on
      \<open>an\<close> and the report on \<open>a\<close> is printed. \<open>None\<close>: every attempt fails and every retry is
      accepted, so the fetch never returns an article.
      Line 301 of the source carries a stray letter after the last call; it is read
      without it.\<close>
  "run w u =
     (if \<not> is_valid_url w u then Some Invalid_url
      else case Article_init w u of
             None \<Rightarrow> None
           | Some a \<Rightarrow>
               if text' a = [] \<or> title a = ''Failed to Fetch'' then Some Cannot_proceed
               else (case Analyzer_init w a of
                       Inl e \<Rightarrow> Some (Unexpected_error e)
                     | Inr analyzer \<Rightarrow> Some (Report a analyzer)))"

subsection \<open>A small world for concrete runs\<close>

text \<open>
  An instance of the library functions on URLs of the shape \<open>scheme://netloc/path\<close>, enough
  to run the definitions on concrete pages.
\<close>

definition simple_urlparse :: "string \<Rightarrow> ParseResult" where
  "simple_urlparse u =
     (let s = takeWhile (\<lambda>c. c \<noteq> CHR '':'') u;
          r = drop (length s) u
      in if take 3 r = ''://''
         then \<lparr>scheme = s, netloc = takeWhile (\<lambda>c. c \<noteq> CHR ''/'') (drop 3 r)\<rparr>
         else \<lparr>scheme = [], netloc = []\<rparr>)"

definition simple_urljoin :: "string \<Rightarrow> string \<Rightarrow> string" where
  "simple_urljoin base href =
     (if scheme (simple_urlparse href) \<noteq> [] then href
      else scheme (simple_urlparse base) @ ''://'' @ netloc (simple_urlparse base) @ href)"

definition fail_then :: "nat \<Rightarrow> response \<Rightarrow> nat \<Rightarrow> response" where
  \<comment> \<open>the first \<open>n\<close> attempts fail, every later one gives \<open>r\<close>\<close>
  "fail_then n r k = (if k < n then RequestException else r)"

definition answers :: "string list \<Rightarrow> nat \<Rightarrow> string" where
  \<comment> \<open>the answers typed at the prompt, in order, and \<open>n\<close> for ever after\<close>
  "answers xs k = (if k < length xs then xs ! k else ''n'')"

definition simple_world :: "(nat \<Rightarrow> response) \<Rightarrow> (nat \<Rightarrow> string) \<Rightarrow> Blob \<Rightarrow> world" where
  "simple_world fetches typed b =
     \<lparr>requests_get = (\<lambda>u. fetches), input = typed, urljoin = simple_urljoin,
      urlparse = simple_urlparse, TextBlob = (\<lambda>t. b)\<rparr>"

definition plain_blob :: "real \<Rightarrow> real \<Rightarrow> nat \<Rightarrow> Blob" where
  "plain_blob p s n =
     \<lparr>sentiment_polarity = p, sentiment_subjectivity = s, sentences = replicate n ''.''\<rparr>"

definition plain_analyzer :: "string \<Rightarrow> real \<Rightarrow> real \<Rightarrow> nat \<Rightarrow> nat \<Rightarrow> Analyzer" where
  "plain_analyzer t p s n l =
     \<lparr>article = \<lparr>url = ''https://example.org/a'', text' = t, title = ''T'', authors = [],
                 external_links_count = l\<rparr>,
      self_text = t, blob = plain_blob p s n\<rparr>"

definition example_url :: string where
  "example_url = ''https://news.example.org/story''"

definition new_article :: "string \<Rightarrow> Article" where
  \<comment> \<open>the fields as \<open>Article.__init__\<close> sets them before the fetch\<close>
  "new_article u = \<lparr>url = u, text' = [], title = [], authors = [], external_links_count = 0\<rparr>"

definition example_soup :: Soup where
  "example_soup =
     \<lparr>title_string = Some '' Morning news '',
      article_paragraphs =
        Some [\<lparr>get_text = ''First.'',
               hrefs = [''https://other.example.com/a'', ''https://other.example.com/a'',
                        ''https://other.example.com/b'']\<rparr>,
              \<lparr>get_text = ''Second.'',
               hrefs = [''https://news.example.org/x'', ''/local'',
                        ''ftp://files.example.com/f'']\<rparr>],
      main_paragraphs = None,
      soup_paragraphs = []\<rparr>"


section \<open>Sentiment labels\<close>

text \<open>
  Claim C4. The label of \<open>analyze_sentiment\<close> is "Positive" exactly when the polarity is
  above 0.1, "Negative" exactly when it is below -0.1, and "Neutral" in between; the
  polarity and the subjectivity are handed back unchanged. A polarity of exactly 0.1 or
  exactly -0.1 is "Neutral", and 0.1000001 is "Positive".
\<close>

theorem sentiment_label_thresholds:
  fixes self :: Analyzer
  defines "p \<equiv> sentiment_polarity (blob self)"
  shows "(fst (analyze_sentiment self) = ''Positive'' \<longleftrightarrow> p > 0.1)
       \<and> (fst (analyze_sentiment self) = ''Negative'' \<longleftrightarrow> p < - 0.1)
       \<and> (fst (analyze_sentiment self) = ''Neutral'' \<longleftrightarrow> - 0.1 \<le> p \<and> p \<le> 0.1)
       \<and> snd (analyze_sentiment self) = (p, sentiment_subjectivity (blob self))
       \<and> (p = 0.1 \<longrightarrow> fst (analyze_sentiment self) = ''Neutral'')
       \<and> (p = - 0.1 \<longrightarrow> fst (analyze_sentiment self) = ''Neutral'')
       \<and> (p = 0.1000001 \<longrightarrow> fst (analyze_sentiment self) = ''Positive'')"
  unfolding p_def analyze_sentiment_def Let_def by auto

theorem sentiment_label_thresholds_witness:
  "fst (analyze_sentiment (plain_analyzer ''x'' 0.1 0 1 0)) = ''Neutral''
   \<and> fst (analyze_sentiment (plain_analyzer ''x'' (- 0.1) 0 1 0)) = ''Neutral''
   \<and> fst (analyze_sentiment (plain_analyzer ''x'' 0.1000001 0 1 0)) = ''Positive''"
  using sentiment_label_thresholds [of "plain_analyzer ''x'' 0.1 0 1 0"]
        sentiment_label_thresholds [of "plain_analyzer ''x'' (- 0.1) 0 1 0"]
        sentiment_label_thresholds [of "plain_analyzer ''x'' 0.1000001 0 1 0"]
  by (simp add: plain_analyzer_def plain_blob_def)

section \<open>Credibility score\<close>

subsection \<open>Rounding to the nearest double\<close>

text \<open>
  The exponent found by \<open>exponent\<close> brackets its argument; \<open>fl\<close> returns a number with a
  significand of 53 bits, leaves such numbers unchanged, and is never further from its
  argument than half a unit in the last place.
\<close>

lemma pow2_powr: "pow2 e = 2 powr (real_of_int e)"
proof (cases "0 \<le> e")
  case True
  then have "2 powr (real_of_int e) = 2 powr (real (nat e))" by simp
  also have "\<dots> = 2 ^ nat e" by (simp add: powr_realpow)
  finally show ?thesis using True by (simp add: pow2_def)
next
  case False
  then have "2 powr (real_of_int e) = 2 powr (- real (nat (- e)))" by simp
  also have "\<dots> = 1 / 2 powr (real (nat (- e)))"
    by (simp only: powr_minus_divide)
  also have "\<dots> = 1 / 2 ^ nat (- e)" by (simp add: powr_realpow)
  finally show ?thesis using False by (simp add: pow2_def)
qed

lemma pow2_pos: "0 < pow2 e"
  by (simp add: pow2_powr)

lemma pow2_add: "pow2 (a + b) = pow2 a * pow2 b"
  by (simp add: pow2_powr powr_add)

lemma pow2_less_iff: "pow2 a < pow2 b \<longleftrightarrow> a < b"
  by (simp add: pow2_powr)

lemma pow2_le_iff: "pow2 a \<le> pow2 b \<longleftrightarrow> a \<le> b"
  by (simp add: pow2_powr)

lemma pow2_nat: "pow2 (int n) = 2 ^ n"
  by (simp add: pow2_def)

lemma pow2_neg_nat: "pow2 (- int n) = 1 / 2 ^ n"
  by (cases "n = 0") (simp_all add: pow2_def)

lemma bit_length_bounds:
  "0 < n \<Longrightarrow> 2 ^ (bit_length n - 1) \<le> n \<and> n < 2 ^ bit_length n"
proof (induction n rule: bit_length.induct)
  case (1 n)
  show ?case
  proof (cases "n div 2 = 0")
    case True
    then have "n = 1" using "1.prems" by (simp add: div_eq_0_iff) 
    then show ?thesis by (simp add: bit_length.simps)
  next
    case False
    then have h: "2 ^ (bit_length (n div 2) - 1) \<le> n div 2 \<and> n div 2 < 2 ^ bit_length (n div 2)"
      using "1.IH" "1.prems" by simp
    have p: "0 < bit_length (n div 2)" using False by (subst bit_length.simps) simp
    have b: "bit_length n = Suc (bit_length (n div 2))"
      using "1.prems" by (subst bit_length.simps) simp
    have "2 ^ (bit_length n - 1) = 2 * 2 ^ (bit_length (n div 2) - 1)"
      using p b by (cases "bit_length (n div 2)") simp_all
    also have "\<dots> \<le> 2 * (n div 2)" using h by simp
    also have "\<dots> \<le> n" by simp
    finally have lo: "2 ^ (bit_length n - 1) \<le> n" .
    have "n = 2 * (n div 2) + n mod 2" by simp
    moreover have "n mod 2 < 2" by simp
    ultimately have "n < 2 * (n div 2) + 2" by linarith
    also have "\<dots> \<le> 2 * 2 ^ bit_length (n div 2)" using h by simp
    finally have hi: "n < 2 ^ bit_length n" using b by simp
    show ?thesis using lo hi by simp
  qed
qed

lemma bit_length_pos: "0 < n \<Longrightarrow> 0 < bit_length n"
  by (subst bit_length.simps) simp

lemma floor_bracket:
  fixes y :: real
  assumes "1 \<le> y"
  defines "j \<equiv> int (bit_length (nat \<lfloor>y\<rfloor>)) - 1"
  shows "0 \<le> j \<and> pow2 j \<le> y \<and> y < pow2 (j + 1)"
proof -
  let ?n = "nat \<lfloor>y\<rfloor>"
  have n: "0 < ?n" using assms(1) by simp
  have b: "2 ^ (bit_length ?n - 1) \<le> ?n \<and> ?n < 2 ^ bit_length ?n"
    using n by (rule bit_length_bounds)
  have p: "0 < bit_length ?n" using n by (rule bit_length_pos)
  have j: "j = int (bit_length ?n - 1)" "j + 1 = int (bit_length ?n)"
    using p by (simp_all add: j_def)
  have fl: "real ?n = of_int \<lfloor>y\<rfloor>" using assms(1) by simp
  have "real (2 ^ (bit_length ?n - 1)) \<le> real ?n" using b by (simp only: of_nat_le_iff)
  then have "pow2 j \<le> real ?n" by (simp only: j(1) pow2_nat) simp
  also have "\<dots> \<le> y" unfolding fl by simp
  finally have lo: "pow2 j \<le> y" .
  have "?n < 2 ^ bit_length ?n" using b by (rule conjunct2)
  then have "Suc ?n \<le> 2 ^ bit_length ?n" by (rule Suc_leI)
  then have "real (Suc ?n) \<le> real (2 ^ bit_length ?n)" by (simp only: of_nat_le_iff)
  then have "real ?n + 1 \<le> pow2 (j + 1)" by (simp only: j(2) pow2_nat) simp
  moreover have "y < real ?n + 1" unfolding fl by linarith
  ultimately have hi: "y < pow2 (j + 1)" by linarith
  show ?thesis using lo hi j by simp
qed

lemma exponent_bounds:
  assumes "x \<noteq> 0"
  shows "pow2 (exponent x) \<le> \<bar>x\<bar> \<and> \<bar>x\<bar> < pow2 (exponent x + 1)"
proof (cases "1 \<le> \<bar>x\<bar>")
  case True
  then show ?thesis using floor_bracket [of "\<bar>x\<bar>"] by (simp add: exponent_def)
next
  case False
  define y where "y = 1 / \<bar>x\<bar>"
  define j where "j = int (bit_length (nat \<lfloor>y\<rfloor>)) - 1"
  have x: "0 < \<bar>x\<bar>" "\<bar>x\<bar> < 1" using assms False by simp_all
  have y: "1 \<le> y" using x by (simp add: y_def)
  have br: "0 \<le> j \<and> pow2 j \<le> y \<and> y < pow2 (j + 1)"
    unfolding j_def using y by (rule floor_bracket)
  have nz: "pow2 j \<noteq> 0" using pow2_pos [of j] by linarith
  have inv: "pow2 (- k) = 1 / pow2 k" for k
    by (simp add: pow2_powr powr_minus divide_inverse)
  have up: "\<bar>x\<bar> \<le> pow2 (- j)"
  proof -
    have "pow2 j * \<bar>x\<bar> \<le> y * \<bar>x\<bar>" using br x by (simp add: mult_right_mono)
    also have "\<dots> = 1" using x by (simp add: y_def)
    finally have "\<bar>x\<bar> \<le> 1 / pow2 j" using pow2_pos [of j] by (simp add: pos_le_divide_eq mult.commute)
    then show ?thesis by (simp only: inv)
  qed
  have lo: "pow2 (- j - 1) < \<bar>x\<bar>"
  proof -
    have "1 = y * \<bar>x\<bar>" using x by (simp add: y_def)
    also have "\<dots> < pow2 (j + 1) * \<bar>x\<bar>" using br x by (simp add: mult_strict_right_mono)
    finally have "1 / pow2 (j + 1) < \<bar>x\<bar>"
      using pow2_pos [of "j + 1"] by (simp add: pos_divide_less_eq mult.commute)
    moreover have "pow2 (- j - 1) = 1 / pow2 (j + 1)" using inv [of "j + 1"] by simp
    ultimately show ?thesis by simp
  qed
  have e: "exponent x = (if \<bar>x\<bar> * pow2 j = 1 then - j else - j - 1)"
    using False by (simp add: exponent_def Let_def j_def y_def)
  show ?thesis
  proof (cases "\<bar>x\<bar> * pow2 j = 1")
    case True
    then have "\<bar>x\<bar> = 1 / pow2 j" using nz by (simp add: nonzero_eq_divide_eq)
    then have "\<bar>x\<bar> = pow2 (- j)" by (simp only: inv)
    then show ?thesis using e True pow2_less_iff [of "- j" "- j + 1"] by simp
  next
    case neq: False
    have "\<bar>x\<bar> \<noteq> 1 / pow2 j" using neq nz by (simp add: nonzero_eq_divide_eq)
    then have "\<bar>x\<bar> \<noteq> pow2 (- j)" using inv [of j] by simp
    then have "\<bar>x\<bar> < pow2 (- j)" using up by simp
    then show ?thesis using e neq lo by (simp add: less_imp_le)
  qed
qed

lemma exponent_unique:
  assumes "pow2 e \<le> \<bar>x\<bar>" and "\<bar>x\<bar> < pow2 (e + 1)"
  shows "exponent x = e"
proof -
  have "0 < \<bar>x\<bar>" using assms(1) pow2_pos [of e] by linarith
  then have "x \<noteq> 0" by simp
  then have b: "pow2 (exponent x) \<le> \<bar>x\<bar>" "\<bar>x\<bar> < pow2 (exponent x + 1)"
    using exponent_bounds by simp_all
  have "pow2 e < pow2 (exponent x + 1)" using assms(1) b(2) by linarith
  then have 1: "e < exponent x + 1" by (simp only: pow2_less_iff)
  have "pow2 (exponent x) < pow2 (e + 1)" using assms(2) b(1) by linarith
  then have 2: "exponent x < e + 1" by (simp only: pow2_less_iff)
  show ?thesis using 1 2 by linarith
qed



lemma round_half_even_of_int [simp]: "round_half_even (of_int k) = k"
  by (simp add: round_half_even_def)

lemma round_half_even_cases:
  "round_half_even y = \<lfloor>y\<rfloor> \<or> round_half_even y = \<lfloor>y\<rfloor> + 1"
  by (simp add: round_half_even_def Let_def)

lemma round_half_even_error: "\<bar>of_int (round_half_even y) - y\<bar> \<le> 1 / 2"
proof -
  define r where "r = y - of_int \<lfloor>y\<rfloor>"
  have r: "0 \<le> r" "r < 1" unfolding r_def by linarith+
  have y: "y = of_int \<lfloor>y\<rfloor> + r" by (simp add: r_def)
  consider "r < 1 / 2" | "1 / 2 < r" | "r = 1 / 2" by linarith
  then show ?thesis
  proof cases
    case 1
    then have "round_half_even y = \<lfloor>y\<rfloor>" by (simp add: round_half_even_def Let_def r_def)
    then show ?thesis using 1 r y by simp
  next
    case 2
    then have "round_half_even y = \<lfloor>y\<rfloor> + 1"
      by (simp add: round_half_even_def Let_def r_def)
    then show ?thesis using 2 r y by simp
  next
    case 3
    then have "round_half_even y = \<lfloor>y\<rfloor> \<or> round_half_even y = \<lfloor>y\<rfloor> + 1"
      by (rule_tac round_half_even_cases)
    then show ?thesis using 3 y by auto
  qed
qed

lemma round_half_even_lower: "of_int a \<le> y \<Longrightarrow> a \<le> round_half_even y"
proof -
  assume "of_int a \<le> y"
  then have "a \<le> \<lfloor>y\<rfloor>" by (simp add: le_floor_iff)
  then show ?thesis using round_half_even_cases [of y] by linarith
qed

lemma round_half_even_upper: "y \<le> of_int b \<Longrightarrow> round_half_even y \<le> b"
proof -
  assume h: "y \<le> of_int b"
  show ?thesis
  proof (cases "y = of_int b")
    case True
    then show ?thesis by simp
  next
    case False
    then have "y < of_int b" using h by simp
    then have "\<lfloor>y\<rfloor> < b" by (simp add: floor_less_iff)
    then show ?thesis using round_half_even_cases [of y] by linarith
  qed
qed

lemma pow2_0 [simp]: "pow2 0 = 1"
  by (simp add: pow2_def)

lemma pow2_diff: "pow2 (a - b) = pow2 a / pow2 b"
  by (simp add: pow2_powr powr_diff)

lemma fl_exact:
  assumes "\<bar>m\<bar> < 2 ^ 53"
  shows "fl (of_int m * pow2 q) = of_int m * pow2 q"
proof (cases "m = 0")
  case True
  then show ?thesis by (simp add: fl_def)
next
  case False
  define z where "z = real_of_int m * pow2 q"
  define b where "b = bit_length (nat \<bar>m\<bar>)"
  have mpos: "0 < nat \<bar>m\<bar>" using False by simp
  have bb: "2 ^ (b - 1) \<le> nat \<bar>m\<bar> \<and> nat \<bar>m\<bar> < 2 ^ b"
    unfolding b_def using mpos by (rule bit_length_bounds)
  have bpos: "0 < b" unfolding b_def using mpos by (rule bit_length_pos)
  have lt: "(2::nat) ^ (b - 1) < 2 ^ 53"
  proof -
    have "int (2 ^ (b - 1)) \<le> int (nat \<bar>m\<bar>)" using bb by (simp only: of_nat_le_iff)
    also have "\<dots> = \<bar>m\<bar>" by simp
    also have "\<dots> < 2 ^ 53" by (rule assms)
    finally show ?thesis by (simp only: of_nat_less_iff [symmetric, where 'a = int]) simp
  qed
  have "b - 1 < 53" by (rule power_less_imp_less_exp [OF _ lt]) simp
  then have b53: "b \<le> 53" by simp
  have am: "real (nat \<bar>m\<bar>) = \<bar>real_of_int m\<bar>" by simp
  have lo: "pow2 (int b - 1) \<le> \<bar>real_of_int m\<bar>"
  proof -
    have "real (2 ^ (b - 1)) \<le> real (nat \<bar>m\<bar>)" using bb by (simp only: of_nat_le_iff)
    moreover have "pow2 (int b - 1) = 2 ^ (b - 1)"
      using bpos pow2_nat [of "b - 1"] by (simp add: of_nat_diff)
    ultimately show ?thesis unfolding am by simp
  qed
  have hi: "\<bar>real_of_int m\<bar> < pow2 (int b)"
  proof -
    have "real (nat \<bar>m\<bar>) < real (2 ^ b)" using bb by (simp only: of_nat_less_iff)
    then show ?thesis unfolding am by (simp add: pow2_nat)
  qed
  have az: "\<bar>z\<bar> = \<bar>real_of_int m\<bar> * pow2 q"
    using pow2_pos [of q] by (simp add: z_def abs_mult)
  have "pow2 (q + int b - 1) = pow2 ((int b - 1) + q)"
    by (rule arg_cong [where f = pow2]) simp
  also have "\<dots> = pow2 (int b - 1) * pow2 q" by (rule pow2_add)
  also have "\<dots> \<le> \<bar>z\<bar>" unfolding az using lo pow2_pos [of q] by (simp add: mult_right_mono)
  finally have zlo: "pow2 (q + int b - 1) \<le> \<bar>z\<bar>" .
  have "\<bar>z\<bar> < pow2 (int b) * pow2 q"
    unfolding az using hi pow2_pos [of q] by (simp add: mult_strict_right_mono)
  also have "\<dots> = pow2 (int b + q)" by (simp only: pow2_add)
  also have "\<dots> = pow2 (q + int b - 1 + 1)" by (rule arg_cong [where f = pow2]) simp
  finally have zhi: "\<bar>z\<bar> < pow2 (q + int b - 1 + 1)" .
  have e: "exponent z = q + int b - 1" using zlo zhi by (rule exponent_unique)
  have znz: "z \<noteq> 0" using False pow2_pos [of q] by (simp add: z_def)
  define u where "u = pow2 (q + int b - 1 - 52)"
  have upos: "0 < u" unfolding u_def by (rule pow2_pos)
  have "pow2 q = pow2 (int (53 - b) + (q + int b - 1 - 52))"
    using b53 by (intro arg_cong [where f = pow2]) (simp add: of_nat_diff)
  then have "pow2 q = pow2 (int (53 - b)) * u"
    unfolding u_def by (simp only: pow2_add)
  then have q: "pow2 q = 2 ^ (53 - b) * u" by (simp add: pow2_nat)
  have "z / u = real_of_int m * 2 ^ (53 - b)"
    unfolding z_def q using upos by simp
  also have "\<dots> = real_of_int (m * 2 ^ (53 - b))" by simp
  finally have d: "z / u = real_of_int (m * 2 ^ (53 - b))" .
  have "fl z = real_of_int (round_half_even (z / u)) * u"
    using znz by (simp add: fl_def e u_def Let_def)
  also have "\<dots> = real_of_int (m * 2 ^ (53 - b)) * u" by (simp only: d round_half_even_of_int)
  also have "\<dots> = z" unfolding z_def q by simp
  finally show ?thesis by (simp add: z_def)
qed

lemma fl_form:
  assumes "x \<noteq> 0"
  shows "\<exists>m q. fl x = of_int m * pow2 q \<and> \<bar>m\<bar> < 2 ^ 53"
proof -
  define e where "e = exponent x"
  define u where "u = pow2 (e - 52)"
  define y where "y = x / u"
  define k where "k = round_half_even y"
  have upos: "0 < u" unfolding u_def by (rule pow2_pos)
  have f: "fl x = of_int k * u"
    using assms by (simp add: fl_def Let_def k_def y_def u_def e_def)
  have eb: "pow2 e \<le> \<bar>x\<bar>" "\<bar>x\<bar> < pow2 (e + 1)"
    using exponent_bounds [OF assms] by (simp_all add: e_def)
  have "pow2 e = pow2 (52 + (e - 52))" by (rule arg_cong [where f = pow2]) simp
  then have p52: "pow2 e = 2 ^ 52 * u"
    unfolding u_def using pow2_nat [of 52] by (simp only: pow2_add) simp
  have "pow2 (e + 1) = pow2 (53 + (e - 52))" by (rule arg_cong [where f = pow2]) simp
  then have p53: "pow2 (e + 1) = 2 ^ 53 * u"
    unfolding u_def using pow2_nat [of 53] by (simp only: pow2_add) simp
  have ay: "\<bar>y\<bar> = \<bar>x\<bar> / u" using upos by (simp add: y_def)
  have ylo: "2 ^ 52 \<le> \<bar>y\<bar>"
    unfolding ay using eb(1) upos by (simp add: p52 pos_le_divide_eq)
  have yhi: "\<bar>y\<bar> < 2 ^ 53"
    unfolding ay using eb(2) upos by (simp add: p53 pos_divide_less_eq)
  have kb: "\<bar>k\<bar> \<le> 2 ^ 53"
  proof (cases "0 \<le> y")
    case True
    then have "y \<le> of_int (2 ^ 53)" "of_int 0 \<le> y" using yhi by simp_all
    then have "k \<le> 2 ^ 53" "0 \<le> k"
      unfolding k_def by (auto intro: round_half_even_upper round_half_even_lower)
    then show ?thesis by simp
  next
    case False
    then have "of_int (- (2 ^ 53)) \<le> y" "y \<le> of_int 0" using yhi by simp_all
    then have "- (2 ^ 53) \<le> k" "k \<le> 0"
      unfolding k_def by (auto intro: round_half_even_upper round_half_even_lower)
    then show ?thesis by simp
  qed
  show ?thesis
  proof (cases "\<bar>k\<bar> < 2 ^ 53")
    case True
    then show ?thesis using f unfolding u_def by blast
  next
    case False
    then have k: "\<bar>k\<bar> = 2 ^ 53" using kb by simp
    then have kk: "k = 9007199254740992 \<or> k = - 9007199254740992" by (simp add: abs_if split: if_splits)
    have ev: "k = 2 * (k div 2)" using kk by (elim disjE) simp_all
    have small: "\<bar>k div 2\<bar> < 2 ^ 53" using kk by (elim disjE) simp_all
    have "pow2 (e - 52 + 1) = pow2 (1 + (e - 52))" by (rule arg_cong [where f = pow2]) simp
    then have "pow2 (e - 52 + 1) = 2 * u"
      unfolding u_def using pow2_nat [of 1] by (simp only: pow2_add) simp
    then have "fl x = of_int (k div 2) * pow2 (e - 52 + 1)"
      using f ev by (metis mult.assoc mult.commute of_int_mult of_int_numeral)
    then show ?thesis using small by blast
  qed
qed

lemma fl_idem: "fl (fl x) = fl x"
proof (cases "x = 0")
  case True
  then show ?thesis by (simp add: fl_def)
next
  case False
  then obtain m q where "fl x = of_int m * pow2 q" "\<bar>m\<bar> < 2 ^ 53"
    using fl_form by blast
  then show ?thesis using fl_exact [of m q] by simp
qed

lemma fl_error:
  assumes "x \<noteq> 0"
  shows "\<bar>fl x - x\<bar> \<le> pow2 (exponent x - 52) / 2"
proof -
  define u where "u = pow2 (exponent x - 52)"
  have upos: "0 < u" unfolding u_def by (rule pow2_pos)
  have "fl x - x = (of_int (round_half_even (x / u)) - x / u) * u"
    using assms upos by (simp add: fl_def Let_def u_def left_diff_distrib)
  then have "\<bar>fl x - x\<bar> = \<bar>of_int (round_half_even (x / u)) - x / u\<bar> * u"
    using upos by (simp add: abs_mult)
  also have "\<dots> \<le> (1 / 2) * u"
    using round_half_even_error [of "x / u"] upos by (intro mult_right_mono) simp_all
  finally show ?thesis by (simp add: u_def)
qed

subsection \<open>The score\<close>

lemma fsub_zero: "fsub (fl x) 0 = fl x"
  by (simp add: fsub_def fl_idem)

lemmas fl_eval =
  fadd_def fsub_def fmul_def fl_def exponent_def bit_length.simps pow2_def Let_def
  round_half_even_def

lemma credibility_score_formula:
  "credibility_score self =
     clamp (fadd (fsub (fmul (fsub 1 (sentiment_subjectivity (blob self))) 100)
                       (if length (sentences (blob self)) < 8 then 25 else 0))
                 (real (min (external_links_count (article self) * 3) 30))) 0 100"
proof -
  have z: "fsub (fmul a 100) 0 = fmul a 100" for a
    unfolding fmul_def by (rule fsub_zero)
  show ?thesis
    unfolding credibility_score_def analyze_sentiment_def clamp_def Let_def
    by (simp add: z max_def min_def)
qed

lemma credibility_assessment_tiers:
  "(credibility_assessment x = ''Appears highly credible'' \<longleftrightarrow> 80 < x)
   \<and> (credibility_assessment x = ''Appears credible'' \<longleftrightarrow> 60 < x \<and> x \<le> 80)
   \<and> (credibility_assessment x = ''Moderate credibility'' \<longleftrightarrow> 40 < x \<and> x \<le> 60)
   \<and> (credibility_assessment x = ''Low credibility (review with caution)'' \<longleftrightarrow> x \<le> 40)"
  unfolding credibility_assessment_def by auto

lemma format_2f_examples:
  "format_2f 0 = ''0.00''" "format_2f 100 = ''100.00''" "format_2f 72 = ''72.00''"
  by (simp_all add: format_2f_def round_half_even_def digit_char_def str_nat.simps)

lemma double_literals:
  "fl (2 / 5) = 3602879701896397 / 9007199254740992"
  "fl (9 / 20) = 8106479329266893 / 18014398509481984"
  "fl (9 / 20000) = 4150517416584649 / 9223372036854775808"
  by (simp_all add: fl_eval)

lemma score_examples:
  "clamp (fadd (fsub (fmul (fsub 1 1) 100) 25) 0) 0 100 = 0"
  "clamp (fadd (fsub (fmul (fsub 1 0) 100) 0) 30) 0 100 = 100"
  "clamp (fadd (fsub (fmul (fsub 1 (fl (4 / 10))) 100) 0) 12) 0 100 = 72"
  "clamp (fadd (fsub (fmul (fsub 1 (fl (45 / 100))) 100) 25) 30) 0 100 = 60 + 1 / 2 ^ 47"
  "clamp (fadd (fsub (fmul (fsub 1 (fl (45 / 100000))) 100) 0) 0) 0 100
     = 7033707824278405 / 2 ^ 46"
  by (simp_all add: fl_eval clamp_def)

lemma format_2f_rounded_examples:
  "format_2f (8444249301319681 / 140737488355328) = ''60.00''"
  "format_2f (7033707824278405 / 70368744177664) = ''99.95''"
  by (simp_all add: format_2f_def round_half_even_def digit_char_def str_nat.simps)

text \<open>
  Claim C1. With subjectivity \<open>s\<close> in [0, 1], \<open>n\<close> sentences and \<open>L\<close> external links, the
  score of \<open>analyze_source_credibility\<close> is
  \<open>clamp ((1 - s) * 100 - (25 if n < 8 else 0) + min (L * 3, 30), 0, 100)\<close>, computed as the
  code computes it, in double arithmetic; the method returns the tier of that clamped score
  (above 80, above 60, above 40, otherwise) and the score printed with two decimals. For
  (1.0, 1, 0) the score is 0, for (0.0, 20, 100) it is 100, and for (0.4, 10, 4) it is 72
  with tier "Appears credible".
\<close>

theorem credibility_formula_and_tiers:
  assumes "sentiment_subjectivity (blob self) = s" and "0 \<le> s" and "s \<le> 1"
    and "length (sentences (blob self)) = n"
    and "external_links_count (article self) = L"
  shows "credibility_score self
           = clamp (fadd (fsub (fmul (fsub 1 s) 100) (if n < 8 then 25 else 0))
                         (real (min (L * 3) 30))) 0 100
       \<and> 0 \<le> credibility_score self \<and> credibility_score self \<le> 100
       \<and> analyze_source_credibility self
           = (credibility_assessment (credibility_score self),
              format_2f (credibility_score self) @ ''/100'')
       \<and> (fst (analyze_source_credibility self) = ''Appears highly credible''
            \<longleftrightarrow> 80 < credibility_score self)
       \<and> (fst (analyze_source_credibility self) = ''Appears credible''
            \<longleftrightarrow> 60 < credibility_score self \<and> credibility_score self \<le> 80)
       \<and> (fst (analyze_source_credibility self) = ''Moderate credibility''
            \<longleftrightarrow> 40 < credibility_score self \<and> credibility_score self \<le> 60)
       \<and> (fst (analyze_source_credibility self) = ''Low credibility (review with caution)''
            \<longleftrightarrow> credibility_score self \<le> 40)
       \<and> (s = 1 \<and> n = 1 \<and> L = 0 \<longrightarrow> credibility_score self = 0)
       \<and> (s = 0 \<and> n = 20 \<and> L = 100 \<longrightarrow> credibility_score self = 100)
       \<and> (s = fl (4 / 10) \<and> n = 10 \<and> L = 4 \<longrightarrow> credibility_score self = 72
            \<and> analyze_source_credibility self = (''Appears credible'', ''72.00/100''))"
proof -
  have f: "credibility_score self
           = clamp (fadd (fsub (fmul (fsub 1 s) 100) (if n < 8 then 25 else 0))
                         (real (min (L * 3) 30))) 0 100"
    using assms credibility_score_formula [of self] by simp
  have r: "0 \<le> credibility_score self \<and> credibility_score self \<le> 100"
    unfolding f clamp_def by simp
  have a: "analyze_source_credibility self
           = (credibility_assessment (credibility_score self),
              format_2f (credibility_score self) @ ''/100'')"
    by (simp add: analyze_source_credibility_def Let_def)
  have e1: "s = 1 \<and> n = 1 \<and> L = 0 \<longrightarrow> credibility_score self = 0"
    unfolding f using score_examples(1) by simp
  have e2: "s = 0 \<and> n = 20 \<and> L = 100 \<longrightarrow> credibility_score self = 100"
    unfolding f using score_examples(2) by simp
  have e3: "s = fl (4 / 10) \<and> n = 10 \<and> L = 4 \<longrightarrow> credibility_score self = 72"
    unfolding f using score_examples(3) by simp
  have e4: "s = fl (4 / 10) \<and> n = 10 \<and> L = 4 \<longrightarrow>
              analyze_source_credibility self = (''Appears credible'', ''72.00/100'')"
  proof
    assume h: "s = fl (4 / 10) \<and> n = 10 \<and> L = 4"
    with e3 have "credibility_score self = 72" by simp
    then show "analyze_source_credibility self = (''Appears credible'', ''72.00/100'')"
      unfolding a by (simp add: credibility_assessment_def format_2f_examples)
  qed
  show ?thesis
    using f r a e1 e2 e3 e4 credibility_assessment_tiers [of "credibility_score self"]
    by simp
qed

lemma plain_analyzer_fields:
  "sentiment_subjectivity (blob (plain_analyzer t p s n l)) = s"
  "length (sentences (blob (plain_analyzer t p s n l))) = n"
  "external_links_count (article (plain_analyzer t p s n l)) = l"
  by (simp_all add: plain_analyzer_def plain_blob_def)

lemma double_unit_interval:
  "0 \<le> fl (4 / 10) \<and> fl (4 / 10) \<le> 1" "0 \<le> fl (45 / 100) \<and> fl (45 / 100) \<le> 1"
  "0 \<le> fl (45 / 100000) \<and> fl (45 / 100000) \<le> 1"
  by (simp_all add: double_literals)

theorem credibility_formula_and_tiers_witness:
  "credibility_score (plain_analyzer ''x'' 0 1 1 0) = 0
   \<and> analyze_source_credibility (plain_analyzer ''x'' 0 1 1 0)
       = (''Low credibility (review with caution)'', ''0.00/100'')
   \<and> credibility_score (plain_analyzer ''x'' 0 0 20 100) = 100
   \<and> analyze_source_credibility (plain_analyzer ''x'' 0 0 20 100)
       = (''Appears highly credible'', ''100.00/100'')
   \<and> credibility_score (plain_analyzer ''x'' 0 (fl (4 / 10)) 10 4) = 72
   \<and> analyze_source_credibility (plain_analyzer ''x'' 0 (fl (4 / 10)) 10 4)
       = (''Appears credible'', ''72.00/100'')
   \<and> credibility_score (plain_analyzer ''x'' 0 (fl (45 / 100)) 7 10) = 60 + 1 / 2 ^ 47
   \<and> analyze_source_credibility (plain_analyzer ''x'' 0 (fl (45 / 100)) 7 10)
       = (''Appears credible'', ''60.00/100'')
   \<and> analyze_source_credibility (plain_analyzer ''x'' 0 (fl (45 / 100000)) 8 0)
       = (''Appears highly credible'', ''99.95/100'')"
proof -
  let ?a1 = "plain_analyzer ''x'' 0 1 1 0"
  let ?a2 = "plain_analyzer ''x'' 0 0 20 100"
  let ?a3 = "plain_analyzer ''x'' 0 (fl (4 / 10)) 10 4"
  let ?a4 = "plain_analyzer ''x'' 0 (fl (45 / 100)) 7 10"
  let ?a5 = "plain_analyzer ''x'' 0 (fl (45 / 100000)) 8 0"
  note t1 = credibility_formula_and_tiers [of ?a1 1 1 0, unfolded plain_analyzer_fields]
  note t2 = credibility_formula_and_tiers [of ?a2 0 20 100, unfolded plain_analyzer_fields]
  note t3 = credibility_formula_and_tiers [of ?a3 "fl (4 / 10)" 10 4,
              unfolded plain_analyzer_fields]
  note t4 = credibility_formula_and_tiers [of ?a4 "fl (45 / 100)" 7 10,
              unfolded plain_analyzer_fields]
  note t5 = credibility_formula_and_tiers [of ?a5 "fl (45 / 100000)" 8 0,
              unfolded plain_analyzer_fields]
  have s1: "credibility_score ?a1 = 0" using t1 by simp
  have s2: "credibility_score ?a2 = 100" using t2 by simp
  have s3: "credibility_score ?a3 = 72" using t3 double_unit_interval(1) by simp
  have s4: "credibility_score ?a4 = 60 + 1 / 2 ^ 47"
    using t4 double_unit_interval(2) score_examples(4) by simp
  have s5: "credibility_score ?a5 = 7033707824278405 / 2 ^ 46"
    using t5 double_unit_interval(3) score_examples(5) by simp
  have r: "analyze_source_credibility a
             = (credibility_assessment (credibility_score a),
                format_2f (credibility_score a) @ ''/100'')" for a
    by (simp add: analyze_source_credibility_def Let_def)
  have r1: "analyze_source_credibility ?a1
              = (''Low credibility (review with caution)'', ''0.00/100'')"
    unfolding r s1 by (simp add: credibility_assessment_def format_2f_examples)
  have r2: "analyze_source_credibility ?a2 = (''Appears highly credible'', ''100.00/100'')"
    unfolding r s2 by (simp add: credibility_assessment_def format_2f_examples)
  have r3: "analyze_source_credibility ?a3 = (''Appears credible'', ''72.00/100'')"
    unfolding r s3 by (simp add: credibility_assessment_def format_2f_examples)
  have r4: "analyze_source_credibility ?a4 = (''Appears credible'', ''60.00/100'')"
    unfolding r s4 by (simp add: credibility_assessment_def format_2f_rounded_examples)
  have r5: "analyze_source_credibility ?a5 = (''Appears highly credible'', ''99.95/100'')"
    unfolding r s5 by (simp add: credibility_assessment_def format_2f_rounded_examples)
  show ?thesis using s1 s2 s3 s4 r1 r2 r3 r4 r5 by (intro conjI)
qed

section \<open>Topic classification\<close>

lemma foldl_add_sum_list:
  "foldl (\<lambda>acc k. acc + f k) a ks = a + sum_list (map f ks)"
  for a :: nat
  by (induction ks arbitrary: a) simp_all

lemma topic_score_sum:
  "topic_score lower_text keywords = sum_list (map (py_count lower_text) keywords)"
  by (simp add: topic_score_def foldl_add_sum_list)

lemma max_from_first_max:
  "\<exists>pre e post. best # xs = pre @ e # post \<and> max_from best xs = fst e
     \<and> (\<forall>x \<in> set pre. snd x < snd e) \<and> (\<forall>x \<in> set post. snd x \<le> snd e)"
proof (induction xs arbitrary: best)
  case Nil
  show ?case by (rule exI [of _ "[]"], rule exI [of _ best], rule exI [of _ "[]"]) simp
next
  case (Cons x xs)
  show ?case
  proof (cases "snd best < snd x")
    case True
    from Cons.IH [of x] obtain pre e post where
      d: "x # xs = pre @ e # post" and m: "max_from x xs = fst e"
      and lt: "\<forall>y \<in> set pre. snd y < snd e" and le: "\<forall>y \<in> set post. snd y \<le> snd e"
      by blast
    have "snd x \<le> snd e"
    proof (cases pre)
      case Nil with d show ?thesis by simp
    next
      case (Cons p ps) with d lt show ?thesis by auto
    qed
    with True have b: "snd best < snd e" by simp
    have "best # x # xs = (best # pre) @ e # post" using d by simp
    moreover have "max_from best (x # xs) = fst e" using True m by simp
    moreover have "\<forall>y \<in> set (best # pre). snd y < snd e" using b lt by simp
    ultimately show ?thesis using le by blast
  next
    case False
    from Cons.IH [of best] obtain pre e post where
      d: "best # xs = pre @ e # post" and m: "max_from best xs = fst e"
      and lt: "\<forall>y \<in> set pre. snd y < snd e" and le: "\<forall>y \<in> set post. snd y \<le> snd e"
      by blast
    have m': "max_from best (x # xs) = fst e" using False m by simp
    show ?thesis
    proof (cases pre)
      case Nil
      with d have e: "e = best" and p: "post = xs" by simp_all
      have "best # x # xs = [] @ e # (x # post)" using e p by simp
      moreover have "\<forall>y \<in> set (x # post). snd y \<le> snd e" using le e False by auto
      ultimately show ?thesis using m' by (metis empty_iff empty_set)
    next
      case (Cons p ps)
      with d have p: "p = best" and xs: "xs = ps @ e # post" by simp_all
      have "snd best < snd e" using lt Cons p by simp
      with False have "snd x < snd e" by simp
      then have "\<forall>y \<in> set (best # x # ps). snd y < snd e" using lt Cons p by simp
      moreover have "best # x # xs = (best # x # ps) @ e # post" using xs by simp
      ultimately show ?thesis using m' le by blast
    qed
  qed
qed

lemma length_scores: "length (scores t) = length topics"
  by (simp add: scores_def)

lemma nth_scores:
  "j < length topics \<Longrightarrow>
     scores t ! j = (fst (topics ! j), sum_list (map (py_count t) (snd (topics ! j))))"
  by (simp add: scores_def topic_score_sum case_prod_unfold)

lemma topic_names:
  "map fst topics = [''Technology'', ''Politics'', ''Sports'', ''Business'', ''Health'',
                     ''Entertainment'', ''Education'']"
  by (simp add: topics_def)

lemma py_max_key_first_max:
  assumes "d \<noteq> []"
  shows "\<exists>i < length d. py_max_key d = Inr (fst (d ! i))
           \<and> (\<forall>j < length d. snd (d ! j) \<le> snd (d ! i))
           \<and> (\<forall>j < i. snd (d ! j) < snd (d ! i))"
proof -
  from assms obtain x xs where dx: "d = x # xs" by (cases d) auto
  from max_from_first_max [of x xs] obtain pre e post where
    dec: "x # xs = pre @ e # post" and m: "max_from x xs = fst e"
    and lt: "\<forall>y \<in> set pre. snd y < snd e" and le: "\<forall>y \<in> set post. snd y \<le> snd e"
    by blast
  let ?i = "length pre"
  have di: "d ! ?i = e" using dx dec by simp
  have i: "?i < length d" using dx dec by simp
  have k: "py_max_key d = Inr (fst (d ! ?i))" using dx m di by (simp add: py_max_key_def)
  have before: "\<forall>j < ?i. snd (d ! j) < snd (d ! ?i)"
  proof (intro allI impI)
    fix j assume "j < ?i"
    then have "d ! j = pre ! j" "pre ! j \<in> set pre" using dx dec by (simp_all add: nth_append)
    then show "snd (d ! j) < snd (d ! ?i)" using lt di by simp
  qed
  have all: "\<forall>j < length d. snd (d ! j) \<le> snd (d ! ?i)"
  proof (intro allI impI)
    fix j assume j: "j < length d"
    consider "j < ?i" | "j = ?i" | "?i < j" by linarith
    then show "snd (d ! j) \<le> snd (d ! ?i)"
    proof cases
      case 1 then show ?thesis using before by (simp add: less_imp_le)
    next
      case 2 then show ?thesis by simp
    next
      case 3
      then have "d ! j = post ! (j - Suc ?i)" using dx dec
        by (simp add: nth_append nth_Cons')
      moreover have "j - Suc ?i < length post" using 3 j dx dec by simp
      ultimately have "d ! j \<in> set post" by simp
      then show ?thesis using le di by simp
    qed
  qed
  show ?thesis using i k before all by blast
qed

lemma occurrences_card: "occurrences s sub = card (occurrence_positions s sub)"
proof -
  let ?xs = "filter (\<lambda>i. take (length sub) (drop i s) = sub)
               [0 ..< Suc (length s) - length sub]"
  have "occurrence_positions s sub = set ?xs"
    unfolding occurrence_positions_def by auto
  moreover have "distinct ?xs" by simp
  ultimately have "card (occurrence_positions s sub) = length ?xs"
    by (simp only: distinct_card)
  then show ?thesis by (simp add: occurrences_def)
qed

lemma finite_occurrence_positions: "finite (occurrence_positions s sub)"
proof -
  have "occurrence_positions s sub \<subseteq> {..length s}"
    by (auto simp: occurrence_positions_def)
  then show ?thesis by (rule finite_subset) simp
qed

lemma shift_positions:
  assumes "m \<le> length s"
  shows "(\<lambda>i. i + m) ` occurrence_positions (drop m s) sub
           \<subseteq> occurrence_positions s sub \<inter> {m..}"
  using assms by (auto simp: occurrence_positions_def add.commute)

lemma occurrences_drop_le:
  assumes "m \<le> length s"
  shows "occurrences (drop m s) sub \<le> card (occurrence_positions s sub \<inter> {m..})"
proof -
  have "card (occurrence_positions (drop m s) sub)
          = card ((\<lambda>i. i + m) ` occurrence_positions (drop m s) sub)"
    by (simp add: card_image)
  also have "\<dots> \<le> card (occurrence_positions s sub \<inter> {m..})"
    by (intro card_mono shift_positions assms finite_Int disjI1 finite_occurrence_positions)
  finally show ?thesis by (simp add: occurrences_card)
qed

lemma py_count_le_occurrences:
  "sub \<noteq> [] \<Longrightarrow> py_count s sub \<le> occurrences s sub"
proof (induction s sub rule: py_count.induct)
  case (1 s sub)
  let ?n = "length sub"
  show ?case
  proof (cases "length s < ?n")
    case True
    then show ?thesis using 1 by (subst py_count.simps) simp
  next
    case False
    then have s: "s \<noteq> []" using "1.prems" by auto
    show ?thesis
    proof (cases "take ?n s = sub")
      case True
      have "py_count s sub = 1 + py_count (drop ?n s) sub"
        using "1.prems" False True by (subst py_count.simps) simp
      also have "\<dots> \<le> 1 + occurrences (drop ?n s) sub"
        using "1.IH"(1) "1.prems" False True by simp
      also have "\<dots> \<le> 1 + card (occurrence_positions s sub \<inter> {?n..})"
        using occurrences_drop_le [of ?n s sub] False by simp
      also have "\<dots> = card (insert 0 (occurrence_positions s sub \<inter> {?n..}))"
        using "1.prems" by (simp add: finite_occurrence_positions)
      also have "\<dots> \<le> card (occurrence_positions s sub)"
      proof (rule card_mono)
        show "finite (occurrence_positions s sub)" by (rule finite_occurrence_positions)
        have "0 \<in> occurrence_positions s sub"
          using True False by (simp add: occurrence_positions_def)
        then show "insert 0 (occurrence_positions s sub \<inter> {?n..}) \<subseteq> occurrence_positions s sub"
          by auto
      qed
      finally show ?thesis by (simp add: occurrences_card)
    next
      case neq: False
      have "py_count s sub = py_count (tl s) sub"
        using "1.prems" False neq by (subst py_count.simps) simp
      also have "\<dots> \<le> occurrences (tl s) sub"
        using "1.IH"(2) "1.prems" False neq by simp
      also have "\<dots> = occurrences (drop 1 s) sub" by (simp add: drop_Suc)
      also have "\<dots> \<le> card (occurrence_positions s sub \<inter> {1..})"
        using occurrences_drop_le [of 1 s sub] s by (simp add: Suc_le_eq)
      also have "\<dots> \<le> card (occurrence_positions s sub)"
        by (intro card_mono finite_occurrence_positions) auto
      finally show ?thesis by (simp add: occurrences_card)
    qed
  qed
qed

lemma categorize_topic_text:
  "categorize_topic self = categorize_topic (plain_analyzer (self_text self) 0 0 0 0)"
  by (simp add: categorize_topic_def plain_analyzer_def)

lemma politics_example:
  "categorize_topic (plain_analyzer ''The government passed a new election law.'' 0 0 0 0)
     = Inr ''Politics''"
  by code_simp

lemma uncategorized_example:
  "categorize_topic (plain_analyzer ''xyz'' 0 0 0 0) = Inr ''Uncategorized''"
  by code_simp

text \<open>
  Claim C3, as amended. The score of a category is the sum, over its keywords, of
  \<open>py_count\<close> on the lower-cased body: the occurrences counted by a left-to-right scan that
  resumes after each occurrence it counts (non-overlapping occurrences, never more than the
  positions at which the keyword occurs). If every category
  scores zero the topic is "Uncategorized"; otherwise it is a category of maximal score, and
  every category declared before it (in the order Technology, Politics, Sports, Business,
  Health, Entertainment, Education) scores strictly less. The method never raises, and the
  body "The government passed a new election law." gives "Politics".
\<close>

theorem categorize_topic_first_max:
  fixes self :: Analyzer
  defines "t \<equiv> py_lower (self_text self)"
  defines "sc \<equiv> \<lambda>j. sum_list (map (py_count t) (snd (topics ! j)))"
  shows "map fst topics = [''Technology'', ''Politics'', ''Sports'', ''Business'', ''Health'',
                           ''Entertainment'', ''Education'']
       \<and> (\<forall>j < length topics. scores t ! j = (fst (topics ! j), sc j))
       \<and> ((\<forall>j < length topics. sc j = 0) \<longrightarrow> categorize_topic self = Inr ''Uncategorized'')
       \<and> (\<not> (\<forall>j < length topics. sc j = 0) \<longrightarrow>
            (\<exists>i < length topics. categorize_topic self = Inr (fst (topics ! i))
               \<and> (\<forall>j < length topics. sc j \<le> sc i) \<and> (\<forall>j < i. sc j < sc i)))
       \<and> (self_text self = ''The government passed a new election law.''
            \<longrightarrow> categorize_topic self = Inr ''Politics'')
       \<and> (\<forall>keyword. keyword \<noteq> [] \<longrightarrow> py_count t keyword \<le> occurrences t keyword)"
proof -
  let ?d = "scores t"
  have n: "\<forall>j < length topics. ?d ! j = (fst (topics ! j), sc j)"
    by (simp add: nth_scores sc_def)
  have z: "list_all (\<lambda>(topic, score). score = 0) ?d \<longleftrightarrow> (\<forall>j < length topics. sc j = 0)"
    using n by (simp add: list_all_length length_scores)
  have c: "categorize_topic self
             = (if \<forall>j < length topics. sc j = 0 then Inr ''Uncategorized'' else py_max_key ?d)"
    unfolding z [symmetric] by (simp add: categorize_topic_def Let_def t_def)
  have u: "(\<forall>j < length topics. sc j = 0) \<longrightarrow> categorize_topic self = Inr ''Uncategorized''"
    using c by simp
  have m: "\<not> (\<forall>j < length topics. sc j = 0) \<longrightarrow>
            (\<exists>i < length topics. categorize_topic self = Inr (fst (topics ! i))
               \<and> (\<forall>j < length topics. sc j \<le> sc i) \<and> (\<forall>j < i. sc j < sc i))"
  proof
    assume nz: "\<not> (\<forall>j < length topics. sc j = 0)"
    then have ne: "?d \<noteq> []" using length_scores [of t] by auto
    from py_max_key_first_max [OF ne] obtain i where
      i: "i < length ?d" and k: "py_max_key ?d = Inr (fst (?d ! i))"
      and all: "\<forall>j < length ?d. snd (?d ! j) \<le> snd (?d ! i)"
      and before: "\<forall>j < i. snd (?d ! j) < snd (?d ! i)"
      by blast
    have il: "i < length topics" using i by (simp add: length_scores)
    have "categorize_topic self = Inr (fst (topics ! i))" using c nz k n il by simp
    moreover have "\<forall>j < length topics. sc j \<le> sc i" using all n il by (simp add: length_scores)
    moreover have "\<forall>j < i. sc j < sc i" using before n il by simp
    ultimately show "\<exists>i < length topics. categorize_topic self = Inr (fst (topics ! i))
               \<and> (\<forall>j < length topics. sc j \<le> sc i) \<and> (\<forall>j < i. sc j < sc i)"
      using il by blast
  qed
  have p: "self_text self = ''The government passed a new election law.''
            \<longrightarrow> categorize_topic self = Inr ''Politics''"
    using categorize_topic_text [of self] politics_example by simp
  have o: "\<forall>keyword. keyword \<noteq> [] \<longrightarrow> py_count t keyword \<le> occurrences t keyword"
    by (simp add: py_count_le_occurrences)
  show ?thesis using topic_names n u m p o by blast
qed

theorem categorize_topic_first_max_witness:
  "categorize_topic (plain_analyzer ''The government passed a new election law.'' 0 0 0 0)
     = Inr ''Politics''
   \<and> categorize_topic (plain_analyzer ''xyz'' 0 0 0 0) = Inr ''Uncategorized''"
proof -
  have a: "self_text (plain_analyzer ''The government passed a new election law.'' 0 0 0 0)
             = ''The government passed a new election law.''"
    by (simp add: plain_analyzer_def)
  have b: "self_text (plain_analyzer ''xyz'' 0 0 0 0) = ''xyz''"
    by (simp add: plain_analyzer_def)
  have s: "scores (py_lower ''xyz'')
             = [(''Technology'', 0), (''Politics'', 0), (''Sports'', 0), (''Business'', 0),
                (''Health'', 0), (''Entertainment'', 0), (''Education'', 0)]"
    by code_simp
  have l: "length topics = 7" by (simp add: topics_def)
  have z: "\<forall>j < length topics.
             sum_list (map (py_count (py_lower ''xyz'')) (snd (topics ! j))) = 0"
  proof (intro allI impI)
    fix j assume j: "j < length topics"
    then have "scores (py_lower ''xyz'') ! j
                 = (fst (topics ! j), sum_list (map (py_count (py_lower ''xyz'')) (snd (topics ! j))))"
      by (rule nth_scores)
    moreover have "snd (scores (py_lower ''xyz'') ! j) = 0"
      using j l unfolding s by (auto simp: less_Suc_eq numeral_eq_Suc)
    ultimately show "sum_list (map (py_count (py_lower ''xyz'')) (snd (topics ! j))) = 0"
      by simp
  qed
  show ?thesis
    using categorize_topic_first_max
            [of "plain_analyzer ''The government passed a new election law.'' 0 0 0 0"]
          categorize_topic_first_max [of "plain_analyzer ''xyz'' 0 0 0 0"] a b z
    by simp
qed

text \<open>
  Claim C3 as first stated counts every substring occurrence. On the body "testest ai" the
  keyword "test" occurs at positions 0 and 3, so Education would score 2 and win; the scan
  counts the two overlapping occurrences once, Education ties with Technology at 1, and
  the method returns "Technology".
\<close>

theorem topic_score_overlap_counterexample:
  "scores (py_lower ''testest ai'')
     = [(''Technology'', 1), (''Politics'', 0), (''Sports'', 0), (''Business'', 0),
        (''Health'', 0), (''Entertainment'', 0), (''Education'', 1)]
   \<and> spec_scores ''testest ai''
     = [(''Technology'', 1), (''Politics'', 0), (''Sports'', 0), (''Business'', 0),
        (''Health'', 0), (''Entertainment'', 0), (''Education'', 2)]
   \<and> categorize_topic (plain_analyzer ''testest ai'' 0 0 1 0) = Inr ''Technology''
   \<and> spec_categorize ''testest ai'' = Inr ''Education''"
  by code_simp

section \<open>The word search\<close>

lemma of_char_lt_256: "(of_char c :: nat) < 256"
proof -
  have "(of_char c :: nat) mod 256 < 256" by (rule mod_less_divisor) simp
  then show ?thesis by (simp only: of_char_mod_256)
qed

lemma is_word_char_lower: "is_word_char (py_lower_char c) = is_word_char c"
proof -
  define n where "n = (of_char c :: nat)"
  have n: "n < 256" unfolding n_def by (rule of_char_lt_256)
  show ?thesis
    unfolding is_word_char_def py_lower_char_def Let_def n_def [symmetric]
    using n by (auto simp: n_def [symmetric])
qed

lemma is_word_at_simps [simp]:
  "is_word_at None = False" "is_word_at (Some c) = is_word_char c"
  by (simp_all add: is_word_at_def)

lemma head_opt_simps [simp]:
  "head_opt [] = None" "head_opt (c # cs) = Some c"
  by (simp_all add: head_opt_def)

lemma not_word_at_head_opt:
  "\<not> is_word_at (head_opt s) \<longleftrightarrow> s = [] \<or> \<not> is_word_char (hd s)"
  by (cases s) simp_all

lemma length_py_lower [simp]: "length (py_lower s) = length s"
  by (simp add: py_lower_def)

lemma py_lower_simps [simp]:
  "py_lower [] = []" "py_lower (c # cs) = py_lower_char c # py_lower cs"
  by (simp_all add: py_lower_def)

lemma py_lower_eq_length: "py_lower a = py_lower b \<Longrightarrow> length a = length b"
  by (metis length_py_lower)

lemma py_lower_eq_ends:
  assumes "py_lower a = py_lower b" and "b \<noteq> []"
  shows "a \<noteq> [] \<and> is_word_char (hd a) = is_word_char (hd b)
         \<and> is_word_char (last a) = is_word_char (last b)"
proof -
  have ne: "a \<noteq> []" using assms py_lower_eq_length [of a b] by auto
  have "py_lower_char (hd a) = py_lower_char (hd b)"
    using assms ne by (metis hd_map py_lower_def)
  then have h: "is_word_char (hd a) = is_word_char (hd b)"
    by (metis is_word_char_lower)
  have "py_lower_char (last a) = py_lower_char (last b)"
    using assms ne by (metis last_map py_lower_def)
  then have l: "is_word_char (last a) = is_word_char (last b)"
    by (metis is_word_char_lower)
  show ?thesis using ne h l by simp
qed

lemma prefix_then_break_iff:
  "prefix_then_break x (annotate s) \<longleftrightarrow>
     length x \<le> length s \<and> py_lower (take (length x) s) = x
     \<and> \<not> is_word_at (head_opt (drop (length x) s))"
proof (induction x arbitrary: s)
  case Nil
  show ?case by (cases s) (simp_all add: annotate_def)
next
  case (Cons a x)
  show ?case
  proof (cases s)
    case Nil
    then show ?thesis by (simp add: annotate_def)
  next
    case (Cons c cs)
    have "prefix_then_break (a # x) (annotate (c # cs))
            = (a = py_lower_char c \<and> prefix_then_break x (annotate cs))"
      by (simp add: annotate_def)
    also have "\<dots> = (a = py_lower_char c \<and> length x \<le> length cs
                     \<and> py_lower (take (length x) cs) = x
                     \<and> \<not> is_word_at (head_opt (drop (length x) cs)))"
      using Cons.IH [of cs] by simp
    finally show ?thesis using Cons by auto
  qed
qed

lemma match_here_iff:
  assumes "wordlike w"
  shows "match_here w prev s \<longleftrightarrow>
           \<not> is_word_at prev \<and> prefix_then_break (py_lower w) (annotate s)"
proof -
  let ?n = "length w" and ?m = "take (length w) s"
  have w: "w \<noteq> []" "is_word_char (hd w)" "is_word_char (last w)"
    using assms by (simp_all add: wordlike_def)
  show ?thesis
  proof (cases "?n \<le> length s \<and> py_lower ?m = py_lower w")
    case False
    then show ?thesis
      by (auto simp: match_here_def Let_def prefix_then_break_iff)
  next
    case True
    then have e: "?m \<noteq> []" "is_word_char (hd ?m)" "is_word_char (last ?m)"
      using py_lower_eq_ends [of ?m w] w by simp_all
    have s: "s \<noteq> []" using e(1) by auto
    have hs: "head_opt s = Some (hd ?m)" using s w(1) by (cases s) (simp_all add: take_Cons')
    have "match_here w prev s
            = (word_boundary prev (Some (hd ?m))
               \<and> word_boundary (Some (last ?m)) (head_opt (drop ?n s)))"
      using True e(1) hs by (simp add: match_here_def Let_def)
    also have "\<dots> = (\<not> is_word_at prev \<and> \<not> is_word_at (head_opt (drop ?n s)))"
      using e by (simp add: word_boundary_def)
    finally show ?thesis using True by (simp add: prefix_then_break_iff)
  qed
qed

lemma search_from_scan:
  assumes "wordlike w"
  shows "search_from w prev s = scan (py_lower w) (is_word_at prev) (annotate s)"
proof (induction s arbitrary: prev)
  case Nil
  have "\<not> prefix_then_break (py_lower w) []"
    using assms by (cases w) (simp_all add: wordlike_def)
  then show ?case using assms by (simp add: match_here_iff annotate_def)
next
  case (Cons c cs)
  have a: "annotate (c # cs) = (py_lower_char c, is_word_char c) # annotate cs"
    by (simp add: annotate_def)
  show ?case
    using Cons.IH [of "Some c"] assms
    by (simp add: match_here_iff a del: prefix_then_break.simps)
qed

lemma re_search_word_scan:
  "wordlike w \<Longrightarrow> re_search_word w t = scan (py_lower w) False (annotate t)"
  using search_from_scan [of w None t] by (simp add: re_search_word_def)

lemma match_here_split:
  assumes "wordlike w"
  shows "match_here w prev s \<longleftrightarrow>
           \<not> is_word_at prev
           \<and> (\<exists>mid post. s = mid @ post \<and> py_lower mid = py_lower w
                 \<and> (post = [] \<or> \<not> is_word_char (hd post)))"
proof -
  have "(length w \<le> length s \<and> py_lower (take (length w) s) = py_lower w
           \<and> \<not> is_word_at (head_opt (drop (length w) s)))
        \<longleftrightarrow> (\<exists>mid post. s = mid @ post \<and> py_lower mid = py_lower w
                 \<and> (post = [] \<or> \<not> is_word_char (hd post)))" (is "?L \<longleftrightarrow> ?R")
  proof
    assume ?L
    then have "s = take (length w) s @ drop (length w) s
               \<and> py_lower (take (length w) s) = py_lower w
               \<and> (drop (length w) s = [] \<or> \<not> is_word_char (hd (drop (length w) s)))"
      by (simp add: not_word_at_head_opt)
    then show ?R by blast
  next
    assume ?R
    then obtain mid post where d: "s = mid @ post" and l: "py_lower mid = py_lower w"
      and p: "post = [] \<or> \<not> is_word_char (hd post)" by blast
    have n: "length mid = length w" using l by (rule py_lower_eq_length)
    then show ?L using d l p by (simp add: not_word_at_head_opt)
  qed
  then show ?thesis using assms by (simp add: match_here_iff prefix_then_break_iff)
qed

lemma search_from_split:
  assumes "wordlike w"
  shows "search_from w prev s \<longleftrightarrow>
           (\<exists>pre mid post. s = pre @ mid @ post \<and> py_lower mid = py_lower w
              \<and> \<not> is_word_at (if pre = [] then prev else Some (last pre))
              \<and> (post = [] \<or> \<not> is_word_char (hd post)))"
proof (induction s arbitrary: prev)
  case Nil
  have "py_lower [] \<noteq> py_lower w" using assms by (cases w) (simp_all add: wordlike_def)
  then show ?case using assms by (auto simp: match_here_split)
next
  case (Cons c cs)
  show ?case (is "?L \<longleftrightarrow> ?R")
  proof
    assume ?L
    then consider "match_here w prev (c # cs)" | "search_from w (Some c) cs" by auto
    then show ?R
    proof cases
      case 1
      then obtain mid post where "c # cs = [] @ mid @ post" "py_lower mid = py_lower w"
        "\<not> is_word_at prev" "post = [] \<or> \<not> is_word_char (hd post)"
        using assms by (auto simp: match_here_split)
      then show ?thesis by (metis (full_types))
    next
      case 2
      then obtain pre mid post where d: "cs = pre @ mid @ post"
        and l: "py_lower mid = py_lower w"
        and b: "\<not> is_word_at (if pre = [] then Some c else Some (last pre))"
        and p: "post = [] \<or> \<not> is_word_char (hd post)"
        using Cons.IH [of "Some c"] by blast
      have "c # cs = (c # pre) @ mid @ post" using d by simp
      moreover have "\<not> is_word_at (if c # pre = [] then prev else Some (last (c # pre)))"
        using b by (cases "pre = []") simp_all
      ultimately show ?thesis using l p by blast
    qed
  next
    assume ?R
    then obtain pre mid post where d: "c # cs = pre @ mid @ post"
      and l: "py_lower mid = py_lower w"
      and b: "\<not> is_word_at (if pre = [] then prev else Some (last pre))"
      and p: "post = [] \<or> \<not> is_word_char (hd post)" by blast
    show ?L
    proof (cases pre)
      case Nil
      then have "match_here w prev (c # cs)"
        using d l b p assms by (auto simp: match_here_split)
      then show ?thesis by simp
    next
      case (Cons q qs)
      then have cs: "cs = qs @ mid @ post" and q: "q = c" using d by simp_all
      have "\<not> is_word_at (if qs = [] then Some c else Some (last qs))"
        using b Cons q by (cases "qs = []") simp_all
      then have "search_from w (Some c) cs"
        using Cons.IH [of "Some c"] cs l p by blast
      then show ?thesis by simp
    qed
  qed
qed

lemma re_search_word_whole_word:
  assumes "wordlike w"
  shows "re_search_word w t = whole_word_match w t"
proof -
  have b: "\<not> is_word_at (if pre = [] then None else Some (last pre))
             \<longleftrightarrow> pre = [] \<or> \<not> is_word_char (last pre)" for pre
    by simp
  show ?thesis
    unfolding re_search_word_def whole_word_match_def search_from_split [OF assms] b ..
qed

section \<open>Bias detection\<close>

lemma lexicon_entries: "list_all (\<lambda>w. wordlike w \<and> py_lower w = w) biased_words"
  by code_simp

lemma lexicon_search:
  "w \<in> set biased_words \<Longrightarrow> re_search_word w t = scan w False (annotate t)"
  using lexicon_entries re_search_word_scan [of w t] by (simp add: list_all_iff)

lemma found_words_scan:
  "found_words self
     = filter (\<lambda>w. scan w False (annotate (self_text self))) biased_words"
  unfolding found_words_def by (rule filter_cong) (simp_all add: lexicon_search)

lemma distinct_biased_words: "distinct biased_words"
  unfolding biased_words_def by simp

lemma length_biased_words: "length biased_words = 121"
  by (simp add: biased_words_def)

lemma lexicon_whole_word:
  "w \<in> set biased_words \<Longrightarrow> re_search_word w t = whole_word_match w t"
  using lexicon_entries re_search_word_whole_word [of w t] by (simp add: list_all_iff)

lemma set_found_words:
  "set (found_words self) = {w \<in> set biased_words. whole_word_match w (self_text self)}"
  by (auto simp: found_words_def lexicon_whole_word)

lemma distinct_found_words: "distinct (found_words self)"
  by (simp add: found_words_def distinct_biased_words)

lemma length_found_words_le: "length (found_words self) \<le> 121"
  using length_filter_le [of "\<lambda>w. re_search_word w (self_text self)" biased_words]
  by (simp add: found_words_def length_biased_words)

lemma detect_bias_iff:
  "detect_bias self (a, n, ws) \<longleftrightarrow>
     a = bias_assessment (length (found_words self)) \<and> n = length (found_words self)
     \<and> distinct ws \<and> set ws = set (found_words self)"
  by (auto simp: detect_bias_def Let_def py_list_set_def)

lemma detect_bias_length:
  assumes "detect_bias self (a, n, ws)"
  shows "n = length ws"
proof -
  have d: "distinct ws" and s: "set ws = set (found_words self)"
    and n: "n = length (found_words self)"
    using assms by (simp_all add: detect_bias_iff)
  have "length ws = card (set ws)" using d by (simp add: distinct_card)
  also have "\<dots> = card (set (found_words self))" by (simp only: s)
  also have "\<dots> = length (found_words self)"
    by (simp add: distinct_card distinct_found_words)
  finally show ?thesis using n by simp
qed

lemma detect_bias_returns: 
  "detect_bias self (bias_assessment (length (found_words self)), length (found_words self),
                     found_words self)"
  by (simp add: detect_bias_iff distinct_found_words)

lemma bias_assessment_tiers:
  "(bias_assessment n = ''High potential for bias'' \<longleftrightarrow> 15 < n)
   \<and> (bias_assessment n = ''Moderate potential for bias'' \<longleftrightarrow> 7 < n \<and> n \<le> 15)
   \<and> (bias_assessment n = ''Low potential for bias'' \<longleftrightarrow> 0 < n \<and> n \<le> 7)
   \<and> (bias_assessment n = ''Appears to be objective'' \<longleftrightarrow> n = 0)"
  unfolding bias_assessment_def by auto

lemma good_not_in_goodness: "\<not> whole_word_match ''good'' ''goodness''"
proof -
  have "wordlike ''good''" by (simp add: wordlike_def is_word_char_def)
  then have "whole_word_match ''good'' ''goodness''
               = scan (py_lower ''good'') False (annotate ''goodness'')"
    using re_search_word_whole_word re_search_word_scan by metis
  also have "\<dots> = False"
    by (simp add: annotate_def py_lower_char_def is_word_char_def)
  finally show ?thesis by simp
qed

text \<open>Evaluation of the search on concrete texts.\<close>

lemmas scan_eval =
  plain_analyzer_def annotate_def py_lower_char_def is_word_char_def biased_words_def
  char_of_def bit_0

lemma found_words_three:
  "found_words (plain_analyzer ''A Shocking disaster, then a miracle. Goodness!'' 0 0 1 0)
     = [''disaster'', ''miracle'', ''shocking'']"
  unfolding found_words_scan by (simp add: scan_eval)

lemma found_words_phrases:
  "found_words (plain_analyzer ''Bad, BAD, so-called truth of course'' 0 0 1 0)
     = [''bad'', ''of course'', ''so-called'', ''truth'']"
  unfolding found_words_scan by (simp add: scan_eval)

lemma found_words_good:
  "found_words (plain_analyzer ''good'' 0 0 1 0) = [''good'']"
  unfolding found_words_scan by (simp add: scan_eval)

lemma found_words_good_bad:
  "found_words (plain_analyzer ''good bad'' 0 0 1 0) = [''bad'', ''good'']"
  unfolding found_words_scan by (simp add: scan_eval)

text \<open>
  Claim C10. In every triple \<open>detect_bias\<close> can return, the score is the length of the word
  list, the list has no repetition, each of its words is an entry of the lexicon that the
  search finds in the text, and the score lies between 0 and 121, the number of entries of
  the lexicon.
\<close>

theorem bias_result_coherent:
  assumes "detect_bias self (assessment, score, ws)"
  shows "score = length ws \<and> distinct ws \<and> set ws \<subseteq> set biased_words
         \<and> (\<forall>w \<in> set ws. re_search_word w (self_text self))
         \<and> 0 \<le> score \<and> score \<le> 121 \<and> length biased_words = 121"
proof -
  have "score = length ws" using assms by (rule detect_bias_length)
  moreover have "distinct ws" using assms by (simp add: detect_bias_iff)
  moreover have "set ws = set (found_words self)" using assms by (simp add: detect_bias_iff)
  then have "set ws \<subseteq> set biased_words" "\<forall>w \<in> set ws. re_search_word w (self_text self)"
    by (auto simp: found_words_def)
  moreover have "score \<le> 121" using assms length_found_words_le by (simp add: detect_bias_iff)
  ultimately show ?thesis by (simp add: length_biased_words)
qed

theorem bias_result_coherent_witness:
  "detect_bias (plain_analyzer ''Bad, BAD, so-called truth of course'' 0 0 1 0)
     (''Low potential for bias'', 4, [''truth'', ''bad'', ''so-called'', ''of course''])
   \<and> length [''truth'', ''bad'', ''so-called'', ''of course''] = (4::nat)
   \<and> re_search_word ''truth'' ''Bad, BAD, so-called truth of course''
   \<and> re_search_word ''bad'' ''Bad, BAD, so-called truth of course''
   \<and> re_search_word ''so-called'' ''Bad, BAD, so-called truth of course''
   \<and> re_search_word ''of course'' ''Bad, BAD, so-called truth of course''"
proof -
  let ?a = "plain_analyzer ''Bad, BAD, so-called truth of course'' 0 0 1 0"
  have d: "detect_bias ?a
     (''Low potential for bias'', 4, [''truth'', ''bad'', ''so-called'', ''of course''])"
    unfolding detect_bias_iff found_words_phrases by (auto simp: bias_assessment_def)
  have t: "self_text ?a = ''Bad, BAD, so-called truth of course''"
    by (simp add: plain_analyzer_def)
  show ?thesis
    using bias_result_coherent [OF d] d unfolding t by simp
qed

text \<open>
  Claim C2. The score of \<open>detect_bias\<close> is the number of distinct lexicon entries with a
  whole-word, case-insensitive match in the text, however often each occurs; "good" inside
  "goodness" is no match. The tier is "High potential for bias" exactly above 15,
  "Moderate potential for bias" exactly from 8 to 15, "Low potential for bias" exactly from
  1 to 7 and "Appears to be objective" exactly at 0. When the matched entries are
  "shocking", "disaster" and "miracle" the score is 3 and the tier is "Low potential for
  bias".
\<close>

theorem bias_score_counts_matched_entries:
  assumes "detect_bias self (assessment, score, ws)"
  shows "score = card {w \<in> set biased_words. whole_word_match w (self_text self)}
         \<and> set ws = {w \<in> set biased_words. whole_word_match w (self_text self)}
         \<and> (assessment = ''High potential for bias'' \<longleftrightarrow> 15 < score)
         \<and> (assessment = ''Moderate potential for bias'' \<longleftrightarrow> 7 < score \<and> score \<le> 15)
         \<and> (assessment = ''Low potential for bias'' \<longleftrightarrow> 0 < score \<and> score \<le> 7)
         \<and> (assessment = ''Appears to be objective'' \<longleftrightarrow> score = 0)
         \<and> \<not> whole_word_match ''good'' ''goodness''
         \<and> \<not> re_search_word ''good'' ''goodness''
         \<and> ({w \<in> set biased_words. whole_word_match w (self_text self)}
               = {''shocking'', ''disaster'', ''miracle''}
             \<longrightarrow> score = 3 \<and> assessment = ''Low potential for bias'')"
proof -
  let ?M = "{w \<in> set biased_words. whole_word_match w (self_text self)}"
  have n: "score = length (found_words self)" and a: "assessment = bias_assessment score"
    and s: "set ws = set (found_words self)"
    using assms by (simp_all add: detect_bias_iff)
  have c: "score = card ?M"
    unfolding n set_found_words [symmetric] by (simp add: distinct_card distinct_found_words)
  have m: "set ws = ?M" using s by (simp add: set_found_words)
  have e: "?M = {''shocking'', ''disaster'', ''miracle''}
             \<longrightarrow> score = 3 \<and> assessment = ''Low potential for bias''"
  proof
    assume "?M = {''shocking'', ''disaster'', ''miracle''}"
    then have "score = 3" unfolding c by simp
    then show "score = 3 \<and> assessment = ''Low potential for bias''"
      using a by (simp add: bias_assessment_def)
  qed
  have g: "\<not> re_search_word ''good'' ''goodness''"
    using good_not_in_goodness lexicon_whole_word [of "''good''" "''goodness''"]
    by (simp add: biased_words_def)
  show ?thesis using c m e a bias_assessment_tiers [of score] good_not_in_goodness g by simp
qed

theorem bias_score_counts_matched_entries_witness:
  "detect_bias (plain_analyzer ''A Shocking disaster, then a miracle. Goodness!'' 0 0 1 0)
     (''Low potential for bias'', 3, [''shocking'', ''disaster'', ''miracle''])
   \<and> {w \<in> set biased_words.
         whole_word_match w ''A Shocking disaster, then a miracle. Goodness!''}
       = {''shocking'', ''disaster'', ''miracle''}
   \<and> card {w \<in> set biased_words.
         whole_word_match w ''A Shocking disaster, then a miracle. Goodness!''} = 3"
proof -
  let ?a = "plain_analyzer ''A Shocking disaster, then a miracle. Goodness!'' 0 0 1 0"
  have d: "detect_bias ?a
     (''Low potential for bias'', 3, [''shocking'', ''disaster'', ''miracle''])"
    unfolding detect_bias_iff found_words_three by (auto simp: bias_assessment_def)
  have t: "self_text ?a = ''A Shocking disaster, then a miracle. Goodness!''"
    by (simp add: plain_analyzer_def)
  show ?thesis
    using bias_score_counts_matched_entries [OF d] d unfolding t by simp
qed

lemma length_filter_mono:
  "(\<forall>x \<in> set xs. P x \<longrightarrow> Q x) \<Longrightarrow> length (filter P xs) \<le> length (filter Q xs)"
  by (induction xs) auto

lemma whole_word_match_append:
  assumes "whole_word_match v a" and "\<not> is_word_char sep"
  shows "whole_word_match v (a @ sep # x)"
proof -
  from assms(1) obtain pre mid post where d: "a = pre @ mid @ post"
    and l: "py_lower mid = py_lower v"
    and b: "pre = [] \<or> \<not> is_word_char (last pre)"
    and e: "post = [] \<or> \<not> is_word_char (hd post)"
    unfolding whole_word_match_def by blast
  have "a @ sep # x = pre @ mid @ (post @ sep # x)" using d by simp
  moreover have "\<not> is_word_char (hd (post @ sep # x))"
    using e assms(2) by (cases post) simp_all
  ultimately show ?thesis unfolding whole_word_match_def using l b by blast
qed

lemma whole_word_match_prepend:
  assumes "whole_word_match v a" and "\<not> is_word_char sep"
  shows "whole_word_match v (x @ sep # a)"
proof -
  from assms(1) obtain pre mid post where d: "a = pre @ mid @ post"
    and l: "py_lower mid = py_lower v"
    and b: "pre = [] \<or> \<not> is_word_char (last pre)"
    and e: "post = [] \<or> \<not> is_word_char (hd post)"
    unfolding whole_word_match_def by blast
  have "x @ sep # a = (x @ sep # pre) @ mid @ post" using d by simp
  moreover have "\<not> is_word_char (last (x @ sep # pre))"
    using b assms(2) by (cases "pre = []") simp_all
  ultimately show ?thesis unfolding whole_word_match_def using l e by blast
qed

lemma score_mono:
  assumes "\<forall>w \<in> set biased_words.
             whole_word_match w (self_text a) \<longrightarrow> whole_word_match w (self_text b)"
  shows "length (found_words a) \<le> length (found_words b)"
  unfolding found_words_def
  using assms by (intro length_filter_mono) (simp add: lexicon_whole_word)

text \<open>
  Claim C9. If every lexicon entry with a whole-word match in the text of \<open>a\<close> also has one
  in the text of \<open>b\<close>, the score on \<open>a\<close> is at most the score on \<open>b\<close>. In particular the score
  does not decrease when anything (such as an entry not matched so far) is added after or
  before the text behind a separator that is not a word character.
\<close>

theorem bias_score_monotone:
  assumes "detect_bias a (assessment_a, score_a, words_a)"
    and "detect_bias b (assessment_b, score_b, words_b)"
  shows "((\<forall>w \<in> set biased_words.
             whole_word_match w (self_text a) \<longrightarrow> whole_word_match w (self_text b))
          \<longrightarrow> score_a \<le> score_b)
       \<and> (\<not> is_word_char sep \<and> self_text b = self_text a @ sep # x \<longrightarrow> score_a \<le> score_b)
       \<and> (\<not> is_word_char sep \<and> self_text b = x @ sep # self_text a \<longrightarrow> score_a \<le> score_b)"
proof -
  have n: "score_a = length (found_words a)" "score_b = length (found_words b)"
    using assms by (simp_all add: detect_bias_iff)
  have 1: "(\<forall>w \<in> set biased_words.
             whole_word_match w (self_text a) \<longrightarrow> whole_word_match w (self_text b))
          \<longrightarrow> score_a \<le> score_b"
    unfolding n using score_mono [of a b] by blast
  have 2: "\<not> is_word_char sep \<and> self_text b = self_text a @ sep # x \<longrightarrow> score_a \<le> score_b"
    using 1 whole_word_match_append [of _ "self_text a" sep x] by auto
  have 3: "\<not> is_word_char sep \<and> self_text b = x @ sep # self_text a \<longrightarrow> score_a \<le> score_b"
    using 1 whole_word_match_prepend [of _ "self_text a" sep x] by auto
  show ?thesis using 1 2 3 by blast
qed

theorem bias_score_monotone_witness:
  "detect_bias (plain_analyzer ''good'' 0 0 1 0) (''Low potential for bias'', 1, [''good''])
   \<and> detect_bias (plain_analyzer ''good bad'' 0 0 1 0)
        (''Low potential for bias'', 2, [''good'', ''bad''])
   \<and> \<not> is_word_char CHR '' ''
   \<and> ''good bad'' = ''good'' @ CHR '' '' # ''bad''
   \<and> (1::nat) \<le> 2"
proof -
  let ?a = "plain_analyzer ''good'' 0 0 1 0" and ?b = "plain_analyzer ''good bad'' 0 0 1 0"
  have a: "detect_bias ?a (''Low potential for bias'', 1, [''good''])"
    unfolding detect_bias_iff found_words_good by (auto simp: bias_assessment_def)
  have b: "detect_bias ?b (''Low potential for bias'', 2, [''good'', ''bad''])"
    unfolding detect_bias_iff found_words_good_bad by (auto simp: bias_assessment_def)
  have s: "\<not> is_word_char CHR '' ''" by (simp add: is_word_char_def)
  have h: "\<forall>w \<in> set biased_words.
             whole_word_match w ''good'' \<longrightarrow> whole_word_match w ''good bad''"
    using whole_word_match_append [of _ "''good''" "CHR '' ''" "''bad''"] s by simp
  show ?thesis
    using bias_score_monotone [OF a b, of "CHR '' ''" "''bad''"] a b s h by simp
qed

section \<open>Content extraction\<close>




lemma external_links_count_parse_page:
  "external_links_count (parse_page w self soup)
     = card (external_links w (url self) (select_paragraphs soup))"
  by (simp add: parse_page_def Let_def)


lemma fetch_content_page:
  "requests_get w (url self) k = Page soup \<Longrightarrow>
     fetch_content w k self = Some (parse_page w self soup)"
  by (subst fetch_content.simps) simp


lemma fetch_returns_not_all_retried:
  assumes "fetch_content w k self = Some y"
  shows "\<exists>j. \<not> (requests_get w (url self) j = RequestException
                \<and> py_lower (input w j) = ''y'')"
proof (rule fetch_content.raw_induct
    [where P = "\<lambda>w k self y. \<exists>j. \<not> (requests_get w (url self) j = RequestException
                                      \<and> py_lower (input w j) = ''y'')"
       and w = w and k = k and self = self and y = y])
  show "fetch_content w k self = Some y" by fact
next
  fix f :: "world \<Rightarrow> nat \<Rightarrow> Article \<Rightarrow> Article option"
  fix w k self y
  assume IH: "\<And>w k self y. f w k self = Some y \<Longrightarrow>
                \<exists>j. \<not> (requests_get w (url self) j = RequestException
                        \<and> py_lower (input w j) = ''y'')"
  assume step: "(case requests_get w (url self) k of
                   RequestException \<Rightarrow>
                     let retry = py_lower (input w k)
                     in if retry = ''y'' then f w (Suc k) self
                        else Some (self\<lparr>text' := [], title := ''Failed to Fetch''\<rparr>)
                 | Page soup \<Rightarrow> Some (parse_page w self soup)) = Some y"
  show "\<exists>j. \<not> (requests_get w (url self) j = RequestException
                \<and> py_lower (input w j) = ''y'')"
  proof (cases "requests_get w (url self) k")
    case (Page soup)
    then show ?thesis by (metis response.distinct(1))
  next
    case RequestException
    show ?thesis
    proof (cases "py_lower (input w k) = ''y''")
      case True
      then have "f w (Suc k) self = Some y" using step RequestException by (simp add: Let_def)
      then show ?thesis by (rule IH)
    next
      case False
      then show ?thesis by blast
    qed
  qed
qed

lemma fetch_never_returns:
  assumes "\<forall>j. requests_get w (url self) j = RequestException \<and> py_lower (input w j) = ''y''"
  shows "fetch_content w k self = None"
  using assms fetch_returns_not_all_retried [of w k self] by (cases "fetch_content w k self") auto

text \<open>A concrete page.\<close>

lemma parse_examples:
  "simple_urlparse ''https://news.example.org/story'' = \<lparr>scheme = ''https'', netloc = ''news.example.org''\<rparr>"
  "simple_urlparse ''https://other.example.com/a'' = \<lparr>scheme = ''https'', netloc = ''other.example.com''\<rparr>"
  "simple_urlparse ''https://other.example.com/b'' = \<lparr>scheme = ''https'', netloc = ''other.example.com''\<rparr>"
  "simple_urlparse ''https://news.example.org/x'' = \<lparr>scheme = ''https'', netloc = ''news.example.org''\<rparr>"
  "simple_urlparse ''https://news.example.org/local'' = \<lparr>scheme = ''https'', netloc = ''news.example.org''\<rparr>"
  "simple_urlparse ''/local'' = \<lparr>scheme = [], netloc = []\<rparr>"
  "simple_urlparse ''ftp://files.example.com/f'' = \<lparr>scheme = ''ftp'', netloc = ''files.example.com''\<rparr>"
  by (simp_all add: simple_urlparse_def Let_def)

lemma example_url_valid: "is_valid_url (simple_world f t b) example_url"
  by (simp add: is_valid_url_def simple_world_def example_url_def parse_examples)

lemma example_links:
  "external_links (simple_world f t b) example_url (select_paragraphs example_soup)
     = {''https://other.example.com/a'', ''https://other.example.com/b''}"
  by (simp add: external_links_def select_paragraphs_def example_soup_def simple_world_def
                simple_urljoin_def example_url_def parse_examples insert_commute)

lemma example_parse:
  "parse_page (simple_world f t b) (new_article example_url) example_soup
     = \<lparr>url = example_url, text' = ''First.'' @ [CHR 0x0A] @ ''Second.'',
        title = ''Morning news'', authors = [], external_links_count = 2\<rparr>"
proof -
  have "url (new_article example_url) = example_url" by (simp add: new_article_def)
  then have "external_links_count
               (parse_page (simple_world f t b) (new_article example_url) example_soup) = 2"
    by (simp add: external_links_count_parse_page example_links)
  moreover have "page_title example_soup = ''Morning news''"
    by (simp add: page_title_def example_soup_def strip_def is_space_char_def)
  moreover have "join [CHR 0x0A] (map get_text (select_paragraphs example_soup))
                   = ''First.'' @ [CHR 0x0A] @ ''Second.''"
    by (simp add: select_paragraphs_def example_soup_def)
  ultimately show ?thesis
    by (simp add: parse_page_def Let_def new_article_def)
qed



section \<open>Analyzer construction and the pipeline\<close>

lemma Article_init_fetch: "Article_init w u = fetch_content w 0 (new_article u)"
  by (simp add: Article_init_def new_article_def)

lemma url_new_article [simp]: "url (new_article u) = u"
  by (simp add: new_article_def)




lemma run_after_fetch:
  assumes "is_valid_url w u" and "Article_init w u = Some a"
  shows "run w u =
           (if text' a = [] \<or> title a = ''Failed to Fetch'' then Some Cannot_proceed
            else Some (Report a \<lparr>article = a, self_text = text' a, blob = TextBlob w (text' a)\<rparr>))"
  using assms by (simp add: run_def Analyzer_init_def)

text \<open>
  Claim C6. Constructing the analyzer on an article whose text is empty raises
  \<open>ValueError\<close>; an analyzer that was constructed has the non-empty text of its article, and
  a run that reaches the analyses does so on a non-empty text.
\<close>

theorem analyzer_rejects_empty_body:
  "(text' a = [] \<longrightarrow> Analyzer_init w a = Inl ValueError)
   \<and> (\<forall>an. Analyzer_init w a = Inr an \<longrightarrow>
          text' a \<noteq> [] \<and> self_text an = text' a \<and> self_text an \<noteq> [] \<and> article an = a)
   \<and> (\<forall>u a' an. run w u = Some (Report a' an) \<longrightarrow> self_text an \<noteq> [] \<and> text' a' \<noteq> [])"
  by (auto simp: Analyzer_init_def run_def split: if_splits option.splits sum.splits)

lemma example_run:
  "run (simple_world (fail_then 0 (Page example_soup)) (answers []) b) example_url
     = Some (Report
         \<lparr>url = example_url, text' = ''First.'' @ [CHR 0x0A] @ ''Second.'',
            title = ''Morning news'', authors = [], external_links_count = 2\<rparr>
         \<lparr>article = \<lparr>url = example_url, text' = ''First.'' @ [CHR 0x0A] @ ''Second.'',
                      title = ''Morning news'', authors = [], external_links_count = 2\<rparr>,
            self_text = ''First.'' @ [CHR 0x0A] @ ''Second.'', blob = b\<rparr>)"
proof -
  let ?w = "simple_world (fail_then 0 (Page example_soup)) (answers []) b"
  have "requests_get ?w (url (new_article example_url)) 0 = Page example_soup"
    by (simp add: simple_world_def fail_then_def)
  then have "Article_init ?w example_url
               = Some (parse_page ?w (new_article example_url) example_soup)"
    unfolding Article_init_fetch by (rule fetch_content_page)
  then have i: "Article_init ?w example_url
               = Some \<lparr>url = example_url, text' = ''First.'' @ [CHR 0x0A] @ ''Second.'',
                       title = ''Morning news'', authors = [], external_links_count = 2\<rparr>"
    by (simp only: example_parse)
  have b: "TextBlob ?w t = b" for t by (simp add: simple_world_def)
  show ?thesis
    using run_after_fetch [OF example_url_valid i] by (simp add: b)
qed

theorem analyzer_rejects_empty_body_witness:
  "Analyzer_init (simple_world (fail_then 0 (Page example_soup)) (answers []) (plain_blob 0 0 9))
     (new_article example_url) = Inl ValueError
   \<and> Analyzer_init (simple_world (fail_then 0 (Page example_soup)) (answers []) (plain_blob 0 0 9))
       ((new_article example_url)\<lparr>text' := ''First.''\<rparr>)
     = Inr \<lparr>article = (new_article example_url)\<lparr>text' := ''First.''\<rparr>,
            self_text = ''First.'', blob = plain_blob 0 0 9\<rparr>
   \<and> run (simple_world (fail_then 0 (Page example_soup)) (answers []) (plain_blob 0 0 9))
       example_url
     = Some (Report
         \<lparr>url = example_url, text' = ''First.'' @ [CHR 0x0A] @ ''Second.'',
            title = ''Morning news'', authors = [], external_links_count = 2\<rparr>
         \<lparr>article = \<lparr>url = example_url, text' = ''First.'' @ [CHR 0x0A] @ ''Second.'',
                      title = ''Morning news'', authors = [], external_links_count = 2\<rparr>,
            self_text = ''First.'' @ [CHR 0x0A] @ ''Second.'', blob = plain_blob 0 0 9\<rparr>)"
proof -
  let ?w = "simple_world (fail_then 0 (Page example_soup)) (answers []) (plain_blob 0 0 9)"
  have e: "text' (new_article example_url) = []" by (simp add: new_article_def)
  have i: "Analyzer_init ?w ((new_article example_url)\<lparr>text' := ''First.''\<rparr>)
     = Inr \<lparr>article = (new_article example_url)\<lparr>text' := ''First.''\<rparr>,
            self_text = ''First.'', blob = plain_blob 0 0 9\<rparr>"
    by (simp add: Analyzer_init_def simple_world_def)
  have 1: "Analyzer_init ?w (new_article example_url) = Inl ValueError"
    using analyzer_rejects_empty_body [of "new_article example_url" ?w] e by blast
  show ?thesis
    using 1 i example_run [of "plain_blob 0 0 9"] by (intro conjI)
qed











end
